theory Spec2Isabelle
  imports Main "HOL-Library.Word" "HOL-Library.Sublist"
begin

section \<open>Fields\<close>

text \<open>
  A log field is zap's \<^verbatim>\<open>Field\<close> struct: a key, a type tag (\<^verbatim>\<open>uint8\<close>), and the payload
  held in an \<^verbatim>\<open>int64\<close>, a string and an interface value. The interface value is opaque
  to the merge, so its type is a parameter.
\<close>

record 'i Field =
  Key :: string
  Type :: "8 word"
  Integer :: "64 word"
  String :: string
  Interface :: 'i

text \<open>
  Modelled from the spec: \<^verbatim>\<open>Field.Equals\<close> is a method of the zap library and is not part
  of the repository. The spec gives a field a key, an opaque value and a value-kind tag
  used for equality; two fields are equal when key, kind and value agree.
\<close>

definition Equals :: "'i Field \<Rightarrow> 'i Field \<Rightarrow> bool" where
  "Equals f other = (f = other)"

section \<open>MergeFields\<close>

text \<open>The Go map \<^verbatim>\<open>map[string]zap.Field\<close>.\<close>

type_synonym 'i fieldMap = "string \<rightharpoonup> 'i Field"

text \<open>
  The first two loops of \<^verbatim>\<open>MergeFields\<close> store every field under its key; a later field
  overwrites an earlier one with the same key.
\<close>

fun addFields :: "'i fieldMap \<Rightarrow> 'i Field list \<Rightarrow> 'i fieldMap" where
  "addFields fieldMap [] = fieldMap"
| "addFields fieldMap (field # rest) = addFields (fieldMap(Key field \<mapsto> field)) rest"

text \<open>
  The third loop runs over \<^verbatim>\<open>existingFields\<close>: a field is appended to the result when the
  map still holds its key and the stored field \<^verbatim>\<open>Equals\<close> it; the key is then deleted.
  The state of the loop is the map and the result built so far.
\<close>

fun keepExisting ::
  "'i fieldMap \<Rightarrow> 'i Field list \<Rightarrow> 'i Field list \<Rightarrow> 'i fieldMap \<times> 'i Field list" where
  "keepExisting fieldMap result [] = (fieldMap, result)"
| "keepExisting fieldMap result (field # rest) =
     (case fieldMap (Key field) of
        Some f \<Rightarrow>
          if Equals f field
          then keepExisting (fieldMap(Key field := None)) (result @ [field]) rest
          else keepExisting fieldMap result rest
      | None \<Rightarrow> keepExisting fieldMap result rest)"

text \<open>
  The fourth loop runs over \<^verbatim>\<open>newFields\<close>: a field is appended when the map still holds
  its key, whatever the stored field is; the key is then deleted.
\<close>

fun addNew ::
  "'i fieldMap \<Rightarrow> 'i Field list \<Rightarrow> 'i Field list \<Rightarrow> 'i fieldMap \<times> 'i Field list" where
  "addNew fieldMap result [] = (fieldMap, result)"
| "addNew fieldMap result (field # rest) =
     (case fieldMap (Key field) of
        Some _ \<Rightarrow> addNew (fieldMap(Key field := None)) (result @ [field]) rest
      | None \<Rightarrow> addNew fieldMap result rest)"

text \<open>The slice that the four loops build (lines 16 to 46 of the function).\<close>

definition mergeLoops :: "'i Field list \<Rightarrow> 'i Field list \<Rightarrow> 'i Field list" where
  "mergeLoops existingFields newFields =
     (let fieldMap = addFields (addFields Map.empty existingFields) newFields;
          (fieldMap, result) = keepExisting fieldMap [] existingFields;
          (fieldMap, result) = addNew fieldMap result newFields
      in result)"

text \<open>
  \<^verbatim>\<open>MergeFields\<close> on the contents of its two slices: the two early returns hand back
  an argument as it is, otherwise the loops run.
\<close>

definition MergeFields :: "'i Field list \<Rightarrow> 'i Field list \<Rightarrow> 'i Field list" where
  "MergeFields existingFields newFields =
     (if length existingFields = 0 then newFields
      else if length newFields = 0 then existingFields
      else mergeLoops existingFields newFields)"

text \<open>The keys of a collection, in order.\<close>

abbreviation keys :: "'i Field list \<Rightarrow> string list" where
  "keys fs \<equiv> map Key fs"

text \<open>
  Two of zap's field constructors, for concrete inputs: \<^verbatim>\<open>zap.String\<close> sets the type tag
  \<^verbatim>\<open>StringType\<close> and the string, \<^verbatim>\<open>zap.Int\<close> sets \<^verbatim>\<open>Int64Type\<close> and the integer. The interface
  value stays nil, which is the one value of \<^typ>\<open>unit\<close> here.
\<close>

definition zap_String :: "string \<Rightarrow> string \<Rightarrow> unit Field" where
  "zap_String key val = \<lparr>Key = key, Type = 15, Integer = 0, String = val, Interface = ()\<rparr>"

definition zap_Int :: "string \<Rightarrow> 64 word \<Rightarrow> unit Field" where
  "zap_Int key val = \<lparr>Key = key, Type = 11, Integer = val, String = [], Interface = ()\<rparr>"

text \<open>
  The reference result in the words of the spec (section 4.1, rule 3): the fields of
  \<^verbatim>\<open>existing\<close> whose key does not occur in \<^verbatim>\<open>incoming\<close>, in their order, followed by all
  of \<^verbatim>\<open>incoming\<close> in its order.
\<close>

definition twoPass :: "'i Field list \<Rightarrow> 'i Field list \<Rightarrow> 'i Field list" where
  "twoPass existing incoming =
     filter (\<lambda>f. Key f \<notin> set (keys incoming)) existing @ incoming"

section \<open>Slices and backing arrays\<close>

text \<open>
  A Go slice refers to a backing array, and two slices may share one. The functions of
  the repository never re-slice, so a slice value is nil or the address of its array.
  The store gives the contents of every array; addresses from \<open>free\<close> on are not yet
  allocated.
\<close>

type_synonym addr = nat

type_synonym slice = "addr option"

record 'i heap =
  cells :: "addr \<Rightarrow> 'i Field list"
  free :: addr

definition elems :: "'i heap \<Rightarrow> slice \<Rightarrow> 'i Field list" where
  "elems h s = (case s of None \<Rightarrow> [] | Some a \<Rightarrow> cells h a)"

text \<open>\<^verbatim>\<open>make\<close> followed by filling the new array: a fresh address holds the contents.\<close>

definition alloc :: "'i heap \<Rightarrow> 'i Field list \<Rightarrow> 'i heap \<times> slice" where
  "alloc h xs = (h\<lparr>cells := (cells h)(free h := xs), free := Suc (free h)\<rparr>, Some (free h))"

text \<open>
  Writing through a slice changes its backing array. Whatever assignments a caller
  makes, the array at that address ends with some contents \<open>xs\<close>.
\<close>

definition mutate :: "'i heap \<Rightarrow> addr \<Rightarrow> 'i Field list \<Rightarrow> 'i heap" where
  "mutate h a xs = h\<lparr>cells := (cells h)(a := xs)\<rparr>"

text \<open>A slice of a running program refers to an allocated array.\<close>

definition slice_ok :: "'i heap \<Rightarrow> slice \<Rightarrow> bool" where
  "slice_ok h s = (case s of None \<Rightarrow> True | Some a \<Rightarrow> a < free h)"

text \<open>
  \<^verbatim>\<open>MergeFields\<close> on slices: an early return hands back the argument slice itself (the
  same backing array); otherwise the result is a new array.
\<close>

definition MergeFields_slices :: "'i heap \<Rightarrow> slice \<Rightarrow> slice \<Rightarrow> 'i heap \<times> slice" where
  "MergeFields_slices h existingFields newFields =
     (if length (elems h existingFields) = 0 then (h, newFields)
      else if length (elems h newFields) = 0 then (h, existingFields)
      else alloc h (mergeLoops (elems h existingFields) (elems h newFields)))"

section \<open>Contexts\<close>

text \<open>
  Modelled from the spec: Go's \<^verbatim>\<open>context\<close> package is not part of the repository. The spec
  asks of the host a handle with parent-scoped key/value association and lookup
  (create-child-with-value, lookup-by-key-walking-to-root). A context is the background
  context or a parent with one key/value pair; \<^verbatim>\<open>fieldsKey\<close> is the package's own key, and
  a stored value is a \<^verbatim>\<open>[]zap.Field\<close> slice or a value of some other type. A nil context is
  \<open>None\<close>. As in Go, \<^verbatim>\<open>context.WithValue\<close> panics when the parent is nil.
\<close>

datatype ctxKey = fieldsKey | otherKey nat

datatype ctxVal = FieldsVal slice | OtherVal nat

datatype Context = Background | valueCtx Context ctxKey ctxVal

fun Value :: "Context \<Rightarrow> ctxKey \<Rightarrow> ctxVal option" where
  "Value Background key = None"
| "Value (valueCtx parent k v) key = (if k = key then Some v else Value parent key)"

datatype panic = NilParent

definition context_WithValue :: "Context option \<Rightarrow> ctxKey \<Rightarrow> ctxVal \<Rightarrow> panic + Context" where
  "context_WithValue parent key val =
     (case parent of None \<Rightarrow> Inl NilParent | Some p \<Rightarrow> Inr (valueCtx p key val))"

text \<open>
  \<^verbatim>\<open>FieldsFromContext\<close>: nil for a nil context and when the lookup finds no \<^verbatim>\<open>[]zap.Field\<close>;
  otherwise a new array of the same length with the stored fields copied into it.
\<close>

definition FieldsFromContext :: "'i heap \<Rightarrow> Context option \<Rightarrow> 'i heap \<times> slice" where
  "FieldsFromContext h ctx =
     (case ctx of
        None \<Rightarrow> (h, None)
      | Some c \<Rightarrow>
          (case Value c fieldsKey of
             Some (FieldsVal fields') \<Rightarrow> alloc h (elems h fields')
           | _ \<Rightarrow> (h, None)))"

text \<open>
  \<^verbatim>\<open>WithFields\<close>. The variadic parameter \<^verbatim>\<open>fields\<close> is a slice (written \<open>fields'\<close> here, as is the local
  variable of \<^verbatim>\<open>FieldsFromContext\<close>). The result is the panic of
  \<^verbatim>\<open>context.WithValue\<close>, or the store and the context returned.
\<close>

definition WithFields ::
  "'i heap \<Rightarrow> Context option \<Rightarrow> slice \<Rightarrow> panic + 'i heap \<times> Context option" where
  "WithFields h ctx fields' =
     (if length (elems h fields') = 0 then Inr (h, ctx)
      else
        let (h1, existingFields) = FieldsFromContext h ctx in
        if length (elems h1 existingFields) = 0
        then (case context_WithValue ctx fieldsKey (FieldsVal fields') of
                Inl p \<Rightarrow> Inl p
              | Inr c \<Rightarrow> Inr (h1, Some c))
        else
          let (h2, mergedFields) = MergeFields_slices h1 existingFields fields' in
          (case context_WithValue ctx fieldsKey (FieldsVal mergedFields) of
             Inl p \<Rightarrow> Inl p
           | Inr c \<Rightarrow> Inr (h2, Some c)))"

text \<open>
  A call \<^verbatim>\<open>WithFields(ctx, f1, ..., fn)\<close> as the tests and examples write it: Go passes nil
  for no arguments and a new slice of the arguments otherwise.
\<close>

definition callWithFields ::
  "'i heap \<Rightarrow> Context option \<Rightarrow> 'i Field list \<Rightarrow> panic + 'i heap \<times> Context option" where
  "callWithFields h ctx fs =
     (if fs = [] then WithFields h ctx None
      else let (h', fields') = alloc h fs in WithFields h' ctx fields')"

text \<open>The fields that a handle shows: the contents of what \<^verbatim>\<open>FieldsFromContext\<close> returns.\<close>

definition fieldsOf :: "'i heap \<Rightarrow> Context option \<Rightarrow> 'i Field list" where
  "fieldsOf h ctx = (let (h', fields') = FieldsFromContext h ctx in elems h' fields')"

text \<open>The slice that a handle carries under \<^verbatim>\<open>fieldsKey\<close> refers to an allocated array.\<close>

definition ctx_ok :: "'i heap \<Rightarrow> Context option \<Rightarrow> bool" where
  "ctx_ok h ctx =
     (case ctx of
        None \<Rightarrow> True
      | Some c \<Rightarrow>
          (case Value c fieldsKey of
             Some (FieldsVal fields') \<Rightarrow> slice_ok h fields'
           | _ \<Rightarrow> True))"

text \<open>The store of a program that has allocated nothing yet.\<close>

definition emptyHeap :: "unit heap" where
  "emptyHeap = \<lparr>cells = (\<lambda>a. []), free = 0\<rparr>"

section \<open>The loops of MergeFields\<close>

lemma keepExisting_result:
  "snd (keepExisting m res xs) = res @ snd (keepExisting m [] xs)"
proof (induction xs arbitrary: m res)
  case Nil
  show ?case by simp
next
  case (Cons x xs)
  have a: "snd (keepExisting m' (res @ [x]) xs) = res @ x # snd (keepExisting m' [] xs)" for m'
    using Cons.IH [of m' "res @ [x]"] by simp
  have b: "snd (keepExisting m' [x] xs) = x # snd (keepExisting m' [] xs)" for m'
    using Cons.IH [of m' "[x]"] by simp
  show ?case
    using Cons.IH [of m res] by (simp add: a b split: option.split)
qed

lemma keepExisting_map:
  "fst (keepExisting m res xs) = fst (keepExisting m [] xs)"
proof (induction xs arbitrary: m res)
  case Nil
  show ?case by simp
next
  case (Cons x xs)
  show ?case
    using Cons.IH [of _ "res @ [x]"] Cons.IH [of _ "[x]"] Cons.IH [of m res]
    by (simp split: option.split)
qed

lemma addNew_result:
  "snd (addNew m res xs) = res @ snd (addNew m [] xs)"
proof (induction xs arbitrary: m res)
  case Nil
  show ?case by simp
next
  case (Cons x xs)
  have a: "snd (addNew m' (res @ [x]) xs) = res @ x # snd (addNew m' [] xs)" for m'
    using Cons.IH [of m' "res @ [x]"] by simp
  have b: "snd (addNew m' [x] xs) = x # snd (addNew m' [] xs)" for m'
    using Cons.IH [of m' "[x]"] by simp
  show ?case
    using Cons.IH [of m res] by (simp add: a b split: option.split)
qed

lemma keepExisting_subset: "set (snd (keepExisting m [] xs)) \<subseteq> set xs"
proof (induction xs arbitrary: m)
  case Nil
  show ?case by simp
next
  case (Cons x xs)
  have b: "snd (keepExisting m' [x] xs) = x # snd (keepExisting m' [] xs)" for m'
    using keepExisting_result [of m' "[x]" xs] by simp
  show ?case
    using Cons.IH by (auto simp: b split: option.split)
qed

lemma keepExisting_length: "length (snd (keepExisting m [] xs)) \<le> length xs"
proof (induction xs arbitrary: m)
  case Nil
  show ?case by simp
next
  case (Cons x xs)
  have b: "snd (keepExisting m' [x] xs) = x # snd (keepExisting m' [] xs)" for m'
    using keepExisting_result [of m' "[x]" xs] by simp
  show ?case
    using Cons.IH by (auto simp: b le_SucI split: option.split)
qed

lemma addNew_subset: "set (snd (addNew m [] xs)) \<subseteq> set xs"
proof (induction xs arbitrary: m)
  case Nil
  show ?case by simp
next
  case (Cons x xs)
  have b: "snd (addNew m' [x] xs) = x # snd (addNew m' [] xs)" for m'
    using addNew_result [of m' "[x]" xs] by simp
  show ?case
    using Cons.IH by (auto simp: b split: option.split)
qed

lemma addNew_length: "length (snd (addNew m [] xs)) \<le> length xs"
proof (induction xs arbitrary: m)
  case Nil
  show ?case by simp
next
  case (Cons x xs)
  have b: "snd (addNew m' [x] xs) = x # snd (addNew m' [] xs)" for m'
    using addNew_result [of m' "[x]" xs] by simp
  show ?case
    using Cons.IH by (auto simp: b le_SucI split: option.split)
qed

lemma mergeLoops_split:
  "mergeLoops ex new =
     snd (keepExisting (addFields (addFields Map.empty ex) new) [] ex) @
     snd (addNew (fst (keepExisting (addFields (addFields Map.empty ex) new) [] ex)) [] new)"
  using addNew_result
    [of "fst (keepExisting (addFields (addFields Map.empty ex) new) [] ex)"
        "snd (keepExisting (addFields (addFields Map.empty ex) new) [] ex)" new]
  by (simp add: mergeLoops_def Let_def split_beta)

lemma keepExisting_keep:
  assumes "m (Key x) = Some x"
  shows "snd (keepExisting m [] (x # xs)) = x # snd (keepExisting (m(Key x := None)) [] xs)"
    and "fst (keepExisting m [] (x # xs)) = fst (keepExisting (m(Key x := None)) [] xs)"
  using assms keepExisting_result [of "m(Key x := None)" "[x]" xs]
    keepExisting_map [of "m(Key x := None)" "[x]" xs]
  by (simp_all add: Equals_def)

lemma keepExisting_skip:
  assumes "m (Key x) \<noteq> Some x"
  shows "keepExisting m res (x # xs) = keepExisting m res xs"
  using assms by (auto simp: Equals_def split: option.split)

lemma addNew_map:
  "fst (addNew m res xs) = fst (addNew m [] xs)"
proof (induction xs arbitrary: m res)
  case Nil
  show ?case by simp
next
  case (Cons x xs)
  show ?case
    using Cons.IH [of _ "res @ [x]"] Cons.IH [of _ "[x]"] Cons.IH [of m res]
    by (simp split: option.split)
qed

lemma addNew_keep:
  assumes "m (Key x) \<noteq> None"
  shows "snd (addNew m [] (x # xs)) = x # snd (addNew (m(Key x := None)) [] xs)"
    and "fst (addNew m [] (x # xs)) = fst (addNew (m(Key x := None)) [] xs)"
  using assms addNew_result [of "m(Key x := None)" "[x]" xs]
    addNew_map [of "m(Key x := None)" "[x]" xs]
  by auto

lemma addNew_skip:
  assumes "m (Key x) = None"
  shows "addNew m res (x # xs) = addNew m res xs"
  using assms by simp

lemma addFields_dom: "dom (addFields m xs) = dom m \<union> Key ` set xs"
  by (induction xs arbitrary: m) auto

lemma keepExisting_keys_dom: "Key ` set (snd (keepExisting m [] xs)) \<subseteq> dom m"
proof (induction xs arbitrary: m)
  case Nil
  show ?case by simp
next
  case (Cons x xs)
  show ?case
  proof (cases "m (Key x) = Some x")
    case True
    define m' where "m' = m(Key x := None)"
    have "dom m' \<subseteq> dom m"
      by (auto simp: m'_def split: if_splits)
    moreover have "Key ` set (snd (keepExisting m' [] xs)) \<subseteq> dom m'"
      by (rule Cons.IH)
    moreover have "Key x \<in> dom m"
      using True by auto
    moreover have "snd (keepExisting m [] (x # xs)) = x # snd (keepExisting m' [] xs)"
      unfolding m'_def by (rule keepExisting_keep(1) [of m x, OF True])
    ultimately show ?thesis by auto
  next
    case False
    show ?thesis
      using Cons.IH [of m] by (simp only: keepExisting_skip [of m x, OF False])
  qed
qed

lemma keepExisting_fst:
  "fst (keepExisting m [] xs) = m |` (- Key ` set (snd (keepExisting m [] xs)))"
proof (induction xs arbitrary: m)
  case Nil
  show ?case by simp
next
  case (Cons x xs)
  show ?case
  proof (cases "m (Key x) = Some x")
    case True
    define m' where "m' = m(Key x := None)"
    have r: "m' |` (- A) = m |` (- insert (Key x) A)" for A
      by (auto simp: m'_def restrict_map_def fun_eq_iff)
    have "fst (keepExisting m' [] xs) = m' |` (- Key ` set (snd (keepExisting m' [] xs)))"
      by (rule Cons.IH)
    moreover have "snd (keepExisting m [] (x # xs)) = x # snd (keepExisting m' [] xs)"
      unfolding m'_def by (rule keepExisting_keep(1) [of m x, OF True])
    moreover have "fst (keepExisting m [] (x # xs)) = fst (keepExisting m' [] xs)"
      unfolding m'_def by (rule keepExisting_keep(2) [of m x, OF True])
    ultimately show ?thesis by (simp add: r)
  next
    case False
    show ?thesis
      using Cons.IH [of m] by (simp only: keepExisting_skip [of m x, OF False])
  qed
qed

lemma keepExisting_distinct: "distinct (keys (snd (keepExisting m [] xs)))"
proof (induction xs arbitrary: m)
  case Nil
  show ?case by simp
next
  case (Cons x xs)
  show ?case
  proof (cases "m (Key x) = Some x")
    case True
    define m' where "m' = m(Key x := None)"
    have "Key x \<notin> dom m'"
      by (simp add: m'_def)
    then have "Key x \<notin> Key ` set (snd (keepExisting m' [] xs))"
      using keepExisting_keys_dom [of m' xs] by blast
    moreover have "distinct (keys (snd (keepExisting m' [] xs)))"
      by (rule Cons.IH)
    moreover have "snd (keepExisting m [] (x # xs)) = x # snd (keepExisting m' [] xs)"
      unfolding m'_def by (rule keepExisting_keep(1) [of m x, OF True])
    ultimately show ?thesis by simp
  next
    case False
    show ?thesis
      using Cons.IH [of m] by (simp only: keepExisting_skip [of m x, OF False])
  qed
qed

lemma addNew_keys: "Key ` set (snd (addNew m [] xs)) = dom m \<inter> Key ` set xs"
proof (induction xs arbitrary: m)
  case Nil
  show ?case by simp
next
  case (Cons x xs)
  show ?case
  proof (cases "m (Key x) = None")
    case True
    have "Key ` set (snd (addNew m [] xs)) = dom m \<inter> Key ` set xs"
      by (rule Cons.IH)
    moreover have "Key x \<notin> dom m"
      using True by auto
    ultimately show ?thesis
      by (auto simp: addNew_skip [of m x, OF True])
  next
    case False
    define m' where "m' = m(Key x := None)"
    have "dom m' = dom m - {Key x}"
      by (auto simp: m'_def split: if_splits)
    moreover have "Key ` set (snd (addNew m' [] xs)) = dom m' \<inter> Key ` set xs"
      by (rule Cons.IH)
    moreover have "Key x \<in> dom m"
      using False by auto
    moreover have "snd (addNew m [] (x # xs)) = x # snd (addNew m' [] xs)"
      unfolding m'_def by (rule addNew_keep(1) [of m x, OF False])
    ultimately show ?thesis by auto
  qed
qed

lemma addNew_distinct: "distinct (keys (snd (addNew m [] xs)))"
proof (induction xs arbitrary: m)
  case Nil
  show ?case by simp
next
  case (Cons x xs)
  show ?case
  proof (cases "m (Key x) = None")
    case True
    show ?thesis
      using Cons.IH [of m] by (simp only: addNew_skip [of m x, OF True])
  next
    case False
    define m' where "m' = m(Key x := None)"
    have "Key x \<notin> dom m'"
      by (simp add: m'_def)
    then have "Key x \<notin> Key ` set (snd (addNew m' [] xs))"
      using addNew_keys [of m' xs] by blast
    moreover have "distinct (keys (snd (addNew m' [] xs)))"
      by (rule Cons.IH)
    moreover have "snd (addNew m [] (x # xs)) = x # snd (addNew m' [] xs)"
      unfolding m'_def by (rule addNew_keep(1) [of m x, OF False])
    ultimately show ?thesis by simp
  qed
qed

lemma keepExisting_dom:
  "dom (fst (keepExisting m [] xs)) = dom m - Key ` set (snd (keepExisting m [] xs))"
proof -
  have "dom (m |` (- A)) = dom m - A" for A :: "string set"
    by auto
  then show ?thesis
    using keepExisting_fst [of m xs] by simp
qed

lemma mergeLoops_distinct: "distinct (keys (mergeLoops ex new))"
proof -
  define m where "m = addFields (addFields Map.empty ex) new"
  define kept where "kept = snd (keepExisting m [] ex)"
  define m1 where "m1 = fst (keepExisting m [] ex)"
  define app where "app = snd (addNew m1 [] new)"
  have "Key ` set app \<subseteq> dom m1"
    using addNew_keys [of m1 new] by (simp add: app_def)
  moreover have "dom m1 = dom m - Key ` set kept"
    unfolding m1_def kept_def by (rule keepExisting_dom)
  ultimately have "Key ` set kept \<inter> Key ` set app = {}"
    by blast
  moreover have "distinct (keys kept)"
    unfolding kept_def by (rule keepExisting_distinct)
  moreover have "distinct (keys app)"
    unfolding app_def by (rule addNew_distinct)
  moreover have "mergeLoops ex new = kept @ app"
    by (simp add: mergeLoops_split kept_def app_def m1_def m_def)
  ultimately show ?thesis
    by simp
qed

lemma mergeLoops_keys: "Key ` set new \<subseteq> Key ` set (mergeLoops ex new)"
proof
  fix k assume k: "k \<in> Key ` set new"
  define m where "m = addFields (addFields Map.empty ex) new"
  define kept where "kept = snd (keepExisting m [] ex)"
  define m1 where "m1 = fst (keepExisting m [] ex)"
  define app where "app = snd (addNew m1 [] new)"
  have split: "mergeLoops ex new = kept @ app"
    by (simp add: mergeLoops_split kept_def app_def m1_def m_def)
  have d: "k \<in> dom m" using k by (simp add: m_def addFields_dom)
  have d1: "dom m1 = dom m - Key ` set kept"
    unfolding m1_def kept_def by (rule keepExisting_dom)
  show "k \<in> Key ` set (mergeLoops ex new)"
  proof (cases "k \<in> Key ` set kept")
    case True
    then show ?thesis by (auto simp: split)
  next
    case False
    then have "k \<in> dom m1"
      using d d1 by simp
    then have "k \<in> Key ` set app"
      using k addNew_keys [of m1 new] by (simp add: app_def)
    then show ?thesis by (auto simp: split)
  qed
qed

lemma keys_inj:
  assumes "distinct (keys xs)" "f \<in> set xs" "g \<in> set xs" "Key f = Key g"
  shows "f = g"
  using assms by (auto simp: distinct_map dest: inj_onD)

lemma addFields_other: "k \<notin> Key ` set xs \<Longrightarrow> addFields m xs k = m k"
  by (induction xs arbitrary: m) auto

lemma addFields_member:
  "distinct (keys xs) \<Longrightarrow> f \<in> set xs \<Longrightarrow> addFields m xs (Key f) = Some f"
proof (induction xs arbitrary: m)
  case Nil
  then show ?case by simp
next
  case (Cons x xs)
  show ?case
  proof (cases "f = x")
    case True
    have "Key x \<notin> Key ` set xs"
      using Cons.prems(1) by auto
    then show ?thesis
      using True by (simp add: addFields_other)
  next
    case False
    then have "f \<in> set xs"
      using Cons.prems(2) by simp
    moreover have "distinct (keys xs)"
      using Cons.prems(1) by simp
    ultimately show ?thesis
      using Cons.IH by simp
  qed
qed

lemma keepExisting_unique:
  "distinct (keys xs) \<Longrightarrow>
   snd (keepExisting m [] xs) = filter (\<lambda>f. m (Key f) = Some f) xs"
proof (induction xs arbitrary: m)
  case Nil
  show ?case by simp
next
  case (Cons x xs)
  have d: "distinct (keys xs)" and nx: "Key x \<notin> Key ` set xs"
    using Cons.prems by auto
  show ?case
  proof (cases "m (Key x) = Some x")
    case True
    define m' where "m' = m(Key x := None)"
    have same: "m' (Key f) = m (Key f)" if "f \<in> set xs" for f
    proof -
      have "Key f \<noteq> Key x" using that nx by (metis imageI)
      then show ?thesis by (simp add: m'_def)
    qed
    have "snd (keepExisting m' [] xs) = filter (\<lambda>f. m' (Key f) = Some f) xs"
      using d by (rule Cons.IH)
    also have "\<dots> = filter (\<lambda>f. m (Key f) = Some f) xs"
      by (rule filter_cong) (simp_all add: same)
    finally have "snd (keepExisting m' [] xs) = filter (\<lambda>f. m (Key f) = Some f) xs" .
    moreover have "snd (keepExisting m [] (x # xs)) = x # snd (keepExisting m' [] xs)"
      unfolding m'_def by (rule keepExisting_keep(1) [of m x, OF True])
    ultimately show ?thesis
      using True by simp
  next
    case False
    show ?thesis
      using Cons.IH [OF d, of m] False by (simp only: keepExisting_skip [of m x, OF False] filter.simps if_False)
  qed
qed

lemma addNew_unique:
  "distinct (keys xs) \<Longrightarrow>
   snd (addNew m [] xs) = filter (\<lambda>f. Key f \<in> dom m) xs"
proof (induction xs arbitrary: m)
  case Nil
  show ?case by simp
next
  case (Cons x xs)
  have d: "distinct (keys xs)" and nx: "Key x \<notin> Key ` set xs"
    using Cons.prems by auto
  show ?case
  proof (cases "m (Key x) = None")
    case True
    then have "Key x \<notin> dom m" by auto
    moreover have "snd (addNew m [] (x # xs)) = snd (addNew m [] xs)"
      by (simp only: addNew_skip [of m x, OF True])
    ultimately show ?thesis
      using Cons.IH [OF d, of m] by (simp del: addNew.simps)
  next
    case False
    define m' where "m' = m(Key x := None)"
    have same: "(Key f \<in> dom m') = (Key f \<in> dom m)" if "f \<in> set xs" for f
    proof -
      have "Key f \<noteq> Key x" using that nx by (metis imageI)
      then show ?thesis by (simp add: m'_def dom_def)
    qed
    have "snd (addNew m' [] xs) = filter (\<lambda>f. Key f \<in> dom m') xs"
      using d by (rule Cons.IH)
    also have "\<dots> = filter (\<lambda>f. Key f \<in> dom m) xs"
      by (rule filter_cong) (simp_all add: same)
    finally have "snd (addNew m' [] xs) = filter (\<lambda>f. Key f \<in> dom m) xs" .
    moreover have "snd (addNew m [] (x # xs)) = x # snd (addNew m' [] xs)"
      unfolding m'_def by (rule addNew_keep(1) [of m x, OF False])
    moreover have "Key x \<in> dom m"
      using False by auto
    ultimately show ?thesis
      by simp
  qed
qed

lemma mergeLoops_unique:
  assumes ex: "distinct (keys ex)" and new: "distinct (keys new)"
  shows "mergeLoops ex new =
    filter (\<lambda>f. Key f \<notin> Key ` set new \<or> f \<in> set new) ex @
    filter (\<lambda>g. g \<notin> set ex) new"
proof -
  define m where "m = addFields (addFields Map.empty ex) new"
  define kept where "kept = snd (keepExisting m [] ex)"
  define m1 where "m1 = fst (keepExisting m [] ex)"
  define app where "app = snd (addNew m1 [] new)"
  have split: "mergeLoops ex new = kept @ app"
    by (simp add: mergeLoops_split kept_def app_def m1_def m_def)
  have look: "(m (Key f) = Some f) = (Key f \<notin> Key ` set new \<or> f \<in> set new)"
    if f: "f \<in> set ex" for f
  proof (cases "Key f \<in> Key ` set new")
    case True
    then obtain g where g: "g \<in> set new" "Key g = Key f" by auto
    have "m (Key g) = Some g"
      unfolding m_def using new g(1) by (rule addFields_member)
    then have "(m (Key f) = Some f) = (g = f)"
      using g(2) by auto
    moreover have "(g = f) = (f \<in> set new)"
      using g keys_inj [OF new, of f g] by auto
    ultimately show ?thesis using True by simp
  next
    case False
    then have "m (Key f) = addFields Map.empty ex (Key f)"
      by (simp add: m_def addFields_other)
    also have "\<dots> = Some f"
      using ex f by (rule addFields_member)
    finally show ?thesis using False by simp
  qed
  have "kept = filter (\<lambda>f. m (Key f) = Some f) ex"
    unfolding kept_def using ex by (rule keepExisting_unique)
  also have "\<dots> = filter (\<lambda>f. Key f \<notin> Key ` set new \<or> f \<in> set new) ex"
    by (rule filter_cong) (simp_all add: look)
  finally have kept: "kept = filter (\<lambda>f. Key f \<notin> Key ` set new \<or> f \<in> set new) ex" .
  have d1: "dom m1 = dom m - Key ` set kept"
    unfolding m1_def kept_def by (rule keepExisting_dom)
  have still: "(Key g \<in> dom m1) = (g \<notin> set ex)" if g: "g \<in> set new" for g
  proof -
    have "Key g \<in> dom m"
      using g by (simp add: m_def addFields_dom)
    then have "(Key g \<in> dom m1) = (Key g \<notin> Key ` set kept)"
      by (simp add: d1)
    moreover have "(Key g \<in> Key ` set kept) = (g \<in> set ex)"
    proof
      assume "Key g \<in> Key ` set kept"
      then obtain f where f: "f \<in> set ex" "Key f = Key g"
        "Key f \<notin> Key ` set new \<or> f \<in> set new"
        by (auto simp: kept)
      then have "f \<in> set new" using g by force
      then have "f = g" using keys_inj [OF new, of f g] g f(2) by simp
      then show "g \<in> set ex" using f(1) by simp
    next
      assume "g \<in> set ex"
      then have "g \<in> set kept" using g by (simp add: kept)
      then show "Key g \<in> Key ` set kept" by simp
    qed
    ultimately show ?thesis by simp
  qed
  have "app = filter (\<lambda>g. Key g \<in> dom m1) new"
    unfolding app_def using new by (rule addNew_unique)
  also have "\<dots> = filter (\<lambda>g. g \<notin> set ex) new"
    by (rule filter_cong) (simp_all add: still)
  finally have "app = filter (\<lambda>g. g \<notin> set ex) new" .
  then show ?thesis
    by (simp add: split kept)
qed

lemma MergeFields_unique:
  assumes "distinct (keys ex)" and "distinct (keys new)"
  shows "MergeFields ex new =
    filter (\<lambda>f. Key f \<notin> Key ` set new \<or> f \<in> set new) ex @
    filter (\<lambda>g. g \<notin> set ex) new"
proof (cases "ex = [] \<or> new = []")
  case True
  then show ?thesis by (auto simp: MergeFields_def)
next
  case False
  then show ?thesis
    using mergeLoops_unique [OF assms] by (simp add: MergeFields_def)
qed

section \<open>The store\<close>

lemma elems_alloc_new [simp]: "elems (fst (alloc h xs)) (snd (alloc h xs)) = xs"
  by (simp add: alloc_def elems_def)

lemma elems_alloc_old: "slice_ok h s \<Longrightarrow> elems (fst (alloc h xs)) s = elems h s"
  by (auto simp: alloc_def elems_def slice_ok_def split: option.split)

lemma slice_ok_alloc_new: "slice_ok (fst (alloc h xs)) (snd (alloc h xs))"
  by (simp add: alloc_def slice_ok_def)

lemma fieldsOf_None: "fieldsOf h None = []"
  by (simp add: fieldsOf_def FieldsFromContext_def elems_def)

lemma fieldsOf_Some:
  "fieldsOf h (Some c) =
     (case Value c fieldsKey of Some (FieldsVal s) \<Rightarrow> elems h s | _ \<Rightarrow> [])"
  by (simp add: fieldsOf_def FieldsFromContext_def elems_def alloc_def split: option.split ctxVal.split)

lemma FieldsFromContext_frame:
  "free h \<le> free (fst (FieldsFromContext h ctx)) \<and>
   (\<forall>a < free h. cells (fst (FieldsFromContext h ctx)) a = cells h a)"
  by (simp add: FieldsFromContext_def alloc_def split: option.split ctxVal.split)

lemma MergeFields_slices_elems:
  "elems (fst (MergeFields_slices h a b)) (snd (MergeFields_slices h a b)) =
   MergeFields (elems h a) (elems h b)"
  by (simp add: MergeFields_slices_def MergeFields_def)

lemma MergeFields_slices_frame:
  "free h \<le> free (fst (MergeFields_slices h a b)) \<and>
   (\<forall>x < free h. cells (fst (MergeFields_slices h a b)) x = cells h x)"
  by (simp add: MergeFields_slices_def alloc_def)

lemma MergeFields_Nil_left: "MergeFields [] new = new"
  by (simp add: MergeFields_def)

lemma MergeFields_Nil_right: "MergeFields ex [] = ex"
  by (simp add: MergeFields_def)

lemma WithFields_returns:
  "\<exists>h' c'. WithFields h (Some c) F = Inr (h', Some c')"
  by (simp add: WithFields_def context_WithValue_def split_beta Let_def)

lemma WithFields_nil_panics:
  "elems h F \<noteq> [] \<Longrightarrow> WithFields h None F = Inl NilParent"
  by (simp add: WithFields_def context_WithValue_def FieldsFromContext_def elems_def)

lemma WithFields_fieldsOf:
  assumes ok: "slice_ok h F" and w: "WithFields h (Some c) F = Inr (h', c')"
  shows "fieldsOf h' c' = MergeFields (fieldsOf h (Some c)) (elems h F)"
proof (cases "elems h F = []")
  case True
  then show ?thesis
    using w by (auto simp: WithFields_def MergeFields_def)
next
  case F: False
  show ?thesis
  proof (cases "\<exists>s. Value c fieldsKey = Some (FieldsVal s)")
    case False
    then have ffc: "FieldsFromContext h (Some c) = (h, None)"
      by (auto simp: FieldsFromContext_def split: option.split ctxVal.split)
    have "fieldsOf h (Some c) = []"
      using False by (auto simp: fieldsOf_Some split: option.split ctxVal.split)
    moreover have "h' = h" "c' = Some (valueCtx c fieldsKey (FieldsVal F))"
      using w F by (auto simp: WithFields_def ffc elems_def context_WithValue_def)
    ultimately show ?thesis
      by (simp add: fieldsOf_Some MergeFields_Nil_left)
  next
    case True
    then obtain s where s: "Value c fieldsKey = Some (FieldsVal s)" by auto
    define h1 where "h1 = fst (alloc h (elems h s))"
    have ffc: "FieldsFromContext h (Some c) = (h1, Some (free h))"
      by (simp add: FieldsFromContext_def s h1_def alloc_def)
    have e1: "elems h1 (Some (free h)) = elems h s"
      by (simp add: h1_def alloc_def elems_def)
    have eF: "elems h1 F = elems h F"
      unfolding h1_def using ok by (rule elems_alloc_old)
    have fo: "fieldsOf h (Some c) = elems h s"
      by (simp add: fieldsOf_Some s)
    show ?thesis
    proof (cases "elems h s = []")
      case True
      have "h' = h1" "c' = Some (valueCtx c fieldsKey (FieldsVal F))"
        using w F True by (auto simp: WithFields_def ffc e1 context_WithValue_def)
      then have "fieldsOf h' c' = elems h F"
        by (simp add: fieldsOf_Some eF)
      then show ?thesis
        by (simp add: fo True MergeFields_Nil_left)
    next
      case False
      define h2 where "h2 = fst (alloc h1 (mergeLoops (elems h s) (elems h F)))"
      have m: "MergeFields_slices h1 (Some (free h)) F = (h2, Some (free h1))"
        using False F by (simp add: MergeFields_slices_def e1 eF h2_def alloc_def)
      have "h' = h2" "c' = Some (valueCtx c fieldsKey (FieldsVal (Some (free h1))))"
        using w F False by (auto simp: WithFields_def ffc e1 m context_WithValue_def)
      moreover have "elems h2 (Some (free h1)) = mergeLoops (elems h s) (elems h F)"
        by (simp add: h2_def alloc_def elems_def)
      ultimately have "fieldsOf h' c' = mergeLoops (elems h s) (elems h F)"
        by (simp add: fieldsOf_Some)
      then show ?thesis
        using False F by (simp add: fo MergeFields_def)
    qed
  qed
qed

lemma WithFields_frame:
  assumes w: "WithFields h ctx F = Inr (h', c')"
  shows "free h \<le> free h' \<and> (\<forall>a < free h. cells h' a = cells h a)"
proof -
  have 1: "free h \<le> free (fst (FieldsFromContext h ctx))"
    "\<forall>a < free h. cells (fst (FieldsFromContext h ctx)) a = cells h a"
    using FieldsFromContext_frame [of h ctx] by auto
  have 2: "free h1 \<le> free (fst (MergeFields_slices h1 a b))"
    "\<forall>x < free h1. cells (fst (MergeFields_slices h1 a b)) x = cells h1 x" for h1 :: "'a heap" and a b
    using MergeFields_slices_frame [of h1 a b] by auto
  have "h' = h \<or> h' = fst (FieldsFromContext h ctx) \<or>
    (\<exists>a b. h' = fst (MergeFields_slices (fst (FieldsFromContext h ctx)) a b))"
    using w
    by (auto simp: WithFields_def split_beta Let_def split: if_splits sum.splits)
  then show ?thesis
    using 1 2 by (elim disjE exE) (simp, simp, metis (no_types, lifting) le_trans less_le_trans)
qed

lemma elems_frame:
  assumes "slice_ok h s" and "\<forall>a < free h. cells h' a = cells h a"
  shows "elems h' s = elems h s"
  using assms by (auto simp: elems_def slice_ok_def split: option.split)

lemma WithFields_ctx_ok:
  assumes ok: "slice_ok h F" and c: "ctx_ok h ctx" and w: "WithFields h ctx F = Inr (h', c')"
  shows "ctx_ok h' c'"
proof (cases "elems h F = []")
  case True
  then show ?thesis using w c by (simp add: WithFields_def)
next
  case F: False
  obtain p where ctx: "ctx = Some p"
    using w F WithFields_nil_panics [of h F] by (cases ctx) auto
  define h1 where "h1 = fst (FieldsFromContext h ctx)"
  define ex where "ex = snd (FieldsFromContext h ctx)"
  have fr1: "free h \<le> free h1"
    using FieldsFromContext_frame [of h ctx] by (simp add: h1_def)
  show ?thesis
  proof (cases "elems h1 ex = []")
    case True
    then have "h' = h1" "c' = Some (valueCtx p fieldsKey (FieldsVal F))"
      using w F ctx by (auto simp: WithFields_def split_beta h1_def ex_def context_WithValue_def)
    then show ?thesis
      using ok fr1 by (auto simp: ctx_ok_def slice_ok_def split: option.split)
  next
    case False
    define h2 where "h2 = fst (MergeFields_slices h1 ex F)"
    define mf where "mf = snd (MergeFields_slices h1 ex F)"
    have "h' = h2" "c' = Some (valueCtx p fieldsKey (FieldsVal mf))"
      using w F False ctx
      by (auto simp: WithFields_def split_beta h1_def ex_def h2_def mf_def context_WithValue_def)
    moreover have "elems h1 F = elems h F"
      unfolding h1_def using ok FieldsFromContext_frame [of h ctx]
      by (intro elems_frame) simp_all
    then have "slice_ok h2 mf"
      using False F by (simp add: h2_def mf_def MergeFields_slices_def slice_ok_alloc_new)
    ultimately show ?thesis
      by (simp add: ctx_ok_def)
  qed
qed

lemma fieldsOf_frame:
  assumes "ctx_ok h ctx" and "\<forall>a < free h. cells h' a = cells h a"
  shows "fieldsOf h' ctx = fieldsOf h ctx"
proof (cases ctx)
  case None
  then show ?thesis by (simp add: fieldsOf_None)
next
  case (Some c)
  then show ?thesis
    using assms
    by (auto simp: fieldsOf_Some ctx_ok_def slice_ok_def elems_def split: option.split ctxVal.split)
qed

section \<open>Claims about MergeFields\<close>

text \<open>
  C10: \<^verbatim>\<open>MergeFields\<close> fabricates nothing. Every field of the result is, as a whole field
  (key, kind and value), a field of \<^verbatim>\<open>existing\<close> or of \<^verbatim>\<open>incoming\<close>, and the result is no
  longer than the two inputs together. This holds for all inputs, with or without
  repeated keys.
\<close>

theorem MergeFields_fabricates_nothing:
  "set (MergeFields existing incoming) \<subseteq> set existing \<union> set incoming \<and>
   length (MergeFields existing incoming) \<le> length existing + length incoming"
proof -
  let ?m = "addFields (addFields Map.empty existing) incoming"
  have s1: "set (snd (keepExisting ?m [] existing)) \<subseteq> set existing"
    by (rule keepExisting_subset)
  have s2: "set (snd (addNew (fst (keepExisting ?m [] existing)) [] incoming)) \<subseteq> set incoming"
    by (rule addNew_subset)
  have l1: "length (snd (keepExisting ?m [] existing)) \<le> length existing"
    by (rule keepExisting_length)
  have l2: "length (snd (addNew (fst (keepExisting ?m [] existing)) [] incoming)) \<le> length incoming"
    by (rule addNew_length)
  have "set (mergeLoops existing incoming) \<subseteq> set existing \<union> set incoming"
    using s1 s2 by (auto simp: mergeLoops_split)
  moreover have "length (mergeLoops existing incoming) \<le> length existing + length incoming"
    using l1 l2 by (simp add: mergeLoops_split)
  ultimately show ?thesis
    by (simp add: MergeFields_def)
qed

lemma filter_key_single:
  "distinct (keys xs) \<Longrightarrow> f \<in> set xs \<Longrightarrow> filter (\<lambda>g. Key g = Key f) xs = [f]"
proof (induction xs)
  case Nil
  then show ?case by simp
next
  case (Cons x xs)
  show ?case
  proof (cases "f = x")
    case True
    have "\<forall>g \<in> set xs. Key g \<noteq> Key x"
      using Cons.prems(1) by (metis distinct.simps(2) imageI list.simps(9) list.set_map)
    then have "filter (\<lambda>g. Key g = Key x) xs = []"
      by (simp add: filter_empty_conv)
    then show ?thesis using True by simp
  next
    case False
    then have f: "f \<in> set xs" using Cons.prems(2) by simp
    then have "Key x \<noteq> Key f"
      using Cons.prems(1) by (metis distinct.simps(2) imageI list.simps(9) list.set_map)
    then show ?thesis
      using Cons.IH f Cons.prems(1) by simp
  qed
qed

lemma addFields_in:
  "k \<in> Key ` set xs \<Longrightarrow> \<exists>g \<in> set xs. addFields m xs k = Some g"
proof (induction xs arbitrary: m)
  case Nil
  then show ?case by simp
next
  case (Cons x xs)
  show ?case
  proof (cases "k \<in> Key ` set xs")
    case True
    then obtain g where "g \<in> set xs" "addFields (m(Key x \<mapsto> x)) xs k = Some g"
      using Cons.IH by blast
    then have "g \<in> set (x # xs)" "addFields m (x # xs) k = Some g"
      by simp_all
    then show ?thesis by blast
  next
    case False
    then have "k = Key x" using Cons.prems by auto
    then have "addFields m (x # xs) k = Some x"
      using False by (simp add: addFields_other)
    then show ?thesis by simp
  qed
qed

lemma keepExisting_kept_lookup:
  "f \<in> set (snd (keepExisting m [] xs)) \<Longrightarrow> m (Key f) = Some f"
proof (induction xs arbitrary: m)
  case Nil
  then show ?case by simp
next
  case (Cons x xs)
  show ?case
  proof (cases "m (Key x) = Some x")
    case True
    define m' where "m' = m(Key x := None)"
    have step: "snd (keepExisting m [] (x # xs)) = x # snd (keepExisting m' [] xs)"
      unfolding m'_def by (rule keepExisting_keep(1) [of m x, OF True])
    show ?thesis
    proof (cases "f = x")
      case True
      then show ?thesis using \<open>m (Key x) = Some x\<close> by simp
    next
      case False
      then have "f \<in> set (snd (keepExisting m' [] xs))"
        using Cons.prems step by simp
      then have "m' (Key f) = Some f" by (rule Cons.IH)
      then show ?thesis by (simp add: m'_def split: if_splits)
    qed
  next
    case False
    show ?thesis
      using Cons.IH [of m] Cons.prems by (simp only: keepExisting_skip [of m x, OF False])
  qed
qed

lemma mergeLoops_from_incoming:
  assumes f: "f \<in> set (mergeLoops ex new)" and k: "Key f \<in> Key ` set new"
  shows "f \<in> set new"
proof -
  define m where "m = addFields (addFields Map.empty ex) new"
  define kept where "kept = snd (keepExisting m [] ex)"
  define m1 where "m1 = fst (keepExisting m [] ex)"
  define app where "app = snd (addNew m1 [] new)"
  have split: "mergeLoops ex new = kept @ app"
    by (simp add: mergeLoops_split kept_def app_def m1_def m_def)
  show ?thesis
  proof (cases "f \<in> set kept")
    case True
    then have "m (Key f) = Some f"
      unfolding kept_def by (rule keepExisting_kept_lookup)
    moreover obtain g where "g \<in> set new" "m (Key f) = Some g"
      using addFields_in [OF k, of "addFields Map.empty ex"] by (auto simp: m_def)
    ultimately show ?thesis by simp
  next
    case False
    then have "f \<in> set app" using f by (simp add: split)
    then show ?thesis
      using addNew_subset [of m1 new] by (auto simp: app_def)
  qed
qed

lemma MergeFields_set: "set (MergeFields ex new) \<subseteq> set ex \<union> set new"
proof -
  have "set (mergeLoops ex new) \<subseteq> set ex \<union> set new"
    using keepExisting_subset [of "addFields (addFields Map.empty ex) new" ex]
      addNew_subset [of "fst (keepExisting (addFields (addFields Map.empty ex) new) [] ex)" new]
    by (auto simp: mergeLoops_split)
  then show ?thesis by (simp add: MergeFields_def)
qed

lemma MergeFields_distinct:
  assumes "distinct (keys ex)" and "distinct (keys new) \<or> ex \<noteq> []"
  shows "distinct (keys (MergeFields ex new))"
  using assms mergeLoops_distinct [of ex new] by (auto simp: MergeFields_def)

text \<open>
  C1, as the spec states it, fails: a field of \<^verbatim>\<open>incoming\<close> that is equal to the field of
  \<^verbatim>\<open>existing\<close> with its key stays at the position it has in \<^verbatim>\<open>existing\<close>, while the
  two-pass reference moves it to its position in \<^verbatim>\<open>incoming\<close>.
\<close>

theorem MergeFields_twoPass_counterexample:
  "distinct (keys [zap_Int ''a'' 1, zap_Int ''b'' 2]) \<and>
   distinct (keys [zap_Int ''c'' 3, zap_Int ''a'' 1]) \<and>
   MergeFields [zap_Int ''a'' 1, zap_Int ''b'' 2] [zap_Int ''c'' 3, zap_Int ''a'' 1] =
     [zap_Int ''a'' 1, zap_Int ''b'' 2, zap_Int ''c'' 3] \<and>
   twoPass [zap_Int ''a'' 1, zap_Int ''b'' 2] [zap_Int ''c'' 3, zap_Int ''a'' 1] =
     [zap_Int ''b'' 2, zap_Int ''c'' 3, zap_Int ''a'' 1] \<and>
   MergeFields [zap_Int ''a'' 1, zap_Int ''b'' 2] [zap_Int ''c'' 3, zap_Int ''a'' 1] \<noteq>
     twoPass [zap_Int ''a'' 1, zap_Int ''b'' 2] [zap_Int ''c'' 3, zap_Int ''a'' 1]"
  by (simp add: MergeFields_def mergeLoops_def twoPass_def Equals_def zap_Int_def)

text \<open>
  C1, amended: for unique-keyed \<^verbatim>\<open>existing\<close> and \<^verbatim>\<open>incoming\<close> such that no field of
  \<^verbatim>\<open>incoming\<close> \<^verbatim>\<open>Equals\<close> a field of \<^verbatim>\<open>existing\<close>, \<^verbatim>\<open>MergeFields\<close> returns the two-pass
  reference result: the fields of \<^verbatim>\<open>existing\<close> whose keys do not occur in \<^verbatim>\<open>incoming\<close>, in
  their order, followed by all fields of \<^verbatim>\<open>incoming\<close> in their order.
\<close>

theorem MergeFields_twoPass:
  assumes "distinct (keys existing)" and "distinct (keys incoming)"
    and "\<not> (\<exists>f \<in> set existing. \<exists>g \<in> set incoming. Equals g f)"
  shows "MergeFields existing incoming = twoPass existing incoming"
proof -
  have none: "g \<notin> set existing" if "g \<in> set incoming" for g
    using assms(3) that by (auto simp: Equals_def)
  have "filter (\<lambda>f. Key f \<notin> Key ` set incoming \<or> f \<in> set incoming) existing =
        filter (\<lambda>f. Key f \<notin> set (keys incoming)) existing"
    by (rule filter_cong) (use none in auto)
  moreover have "filter (\<lambda>g. g \<notin> set existing) incoming = incoming"
    using none by (simp add: filter_id_conv)
  ultimately show ?thesis
    using MergeFields_unique [OF assms(1,2)] by (simp add: twoPass_def)
qed

text \<open>The amended C1 at the spec's order example: \<open>b\<close> is overridden, \<open>c\<close> is new.\<close>

theorem MergeFields_twoPass_witness:
  "MergeFields [zap_Int ''a'' 1, zap_Int ''b'' 2] [zap_Int ''b'' 20, zap_Int ''c'' 3] =
     [zap_Int ''a'' 1, zap_Int ''b'' 20, zap_Int ''c'' 3]"
  using MergeFields_twoPass [of "[zap_Int ''a'' 1, zap_Int ''b'' 2]" "[zap_Int ''b'' 20, zap_Int ''c'' 3]"]
  by (simp add: twoPass_def Equals_def zap_Int_def)

text \<open>
  C2, as the spec states it, fails twice. With an empty \<^verbatim>\<open>existing\<close> the early return hands
  back \<^verbatim>\<open>incoming\<close> with both fields of the repeated key. With a non-empty \<^verbatim>\<open>existing\<close> the
  one field kept for the key is the first occurrence in \<^verbatim>\<open>incoming\<close>, not the last.
\<close>

theorem MergeFields_duplicate_counterexample:
  "MergeFields [] [zap_Int ''k'' 1, zap_Int ''k'' 2] = [zap_Int ''k'' 1, zap_Int ''k'' 2] \<and>
   MergeFields [zap_Int ''a'' 0] [zap_Int ''k'' 1, zap_Int ''k'' 2] =
     [zap_Int ''a'' 0, zap_Int ''k'' 1] \<and>
   Integer (zap_Int ''k'' 1) \<noteq> Integer (last [zap_Int ''k'' 1, zap_Int ''k'' 2])"
  by (simp add: MergeFields_def mergeLoops_def Equals_def zap_Int_def)

text \<open>
  C2, amended: for every non-empty \<^verbatim>\<open>existing\<close> and every key that occurs in \<^verbatim>\<open>incoming\<close>,
  once or several times, the result of \<^verbatim>\<open>MergeFields\<close> holds exactly one field with that
  key, and that field is one of the fields of \<^verbatim>\<open>incoming\<close>. Which occurrence it is, is
  left open.
\<close>

theorem MergeFields_duplicate_incoming:
  assumes "existing \<noteq> []" and "k \<in> set (keys incoming)"
  shows "\<exists>f. filter (\<lambda>g. Key g = k) (MergeFields existing incoming) = [f] \<and> f \<in> set incoming"
proof -
  have ne: "incoming \<noteq> []" using assms(2) by auto
  have m: "MergeFields existing incoming = mergeLoops existing incoming"
    using assms(1) ne by (simp add: MergeFields_def)
  have "k \<in> Key ` set (mergeLoops existing incoming)"
    using mergeLoops_keys [of incoming existing] assms(2) by auto
  then obtain f where f: "f \<in> set (mergeLoops existing incoming)" "Key f = k"
    by auto
  have "filter (\<lambda>g. Key g = Key f) (mergeLoops existing incoming) = [f]"
    using mergeLoops_distinct f(1) by (rule filter_key_single)
  moreover have "f \<in> set incoming"
    using f assms(2) by (intro mergeLoops_from_incoming [of f existing incoming]) auto
  ultimately show ?thesis
    using f(2) m by auto
qed

text \<open>The amended C2 at an \<^verbatim>\<open>incoming\<close> that repeats the key \<open>k\<close>.\<close>

theorem MergeFields_duplicate_incoming_witness:
  "\<exists>f. filter (\<lambda>g. Key g = ''k'')
          (MergeFields [zap_Int ''a'' 0] [zap_Int ''k'' 1, zap_Int ''k'' 2]) = [f] \<and>
        f \<in> set [zap_Int ''k'' 1, zap_Int ''k'' 2]"
  using MergeFields_duplicate_incoming
    [of "[zap_Int ''a'' 0]" "''k''" "[zap_Int ''k'' 1, zap_Int ''k'' 2]"]
  by (simp add: zap_Int_def)

lemma keepExisting_subseq: "subseq (snd (keepExisting m [] xs)) xs"
proof (induction xs arbitrary: m)
  case Nil
  show ?case by simp
next
  case (Cons x xs)
  show ?case
  proof (cases "m (Key x) = Some x")
    case True
    have "subseq (snd (keepExisting (m(Key x := None)) [] xs)) xs"
      by (rule Cons.IH)
    then show ?thesis
      unfolding keepExisting_keep(1) [of m x, OF True] by simp
  next
    case False
    have "subseq (snd (keepExisting m [] xs)) xs"
      by (rule Cons.IH)
    then show ?thesis
      unfolding keepExisting_skip [of m x, OF False] by (rule list_emb_Cons)
  qed
qed

lemma addNew_subseq: "subseq (snd (addNew m [] xs)) xs"
proof (induction xs arbitrary: m)
  case Nil
  show ?case by simp
next
  case (Cons x xs)
  show ?case
  proof (cases "m (Key x) = None")
    case True
    have "subseq (snd (addNew m [] xs)) xs"
      by (rule Cons.IH)
    then show ?thesis
      unfolding addNew_skip [of m x, OF True] by (rule list_emb_Cons)
  next
    case False
    have "subseq (snd (addNew (m(Key x := None)) [] xs)) xs"
      by (rule Cons.IH)
    then show ?thesis
      unfolding addNew_keep(1) [of m x, OF False] by simp
  qed
qed

lemma addFields_last:
  "k \<in> Key ` set xs \<Longrightarrow> addFields m xs k = Some (last (filter (\<lambda>g. Key g = k) xs))"
proof (induction xs arbitrary: m)
  case Nil
  then show ?case by simp
next
  case (Cons x xs)
  show ?case
  proof (cases "k \<in> Key ` set xs")
    case True
    then have "filter (\<lambda>g. Key g = k) xs \<noteq> []"
      by (auto simp: filter_empty_conv)
    moreover have "addFields (m(Key x \<mapsto> x)) xs k = Some (last (filter (\<lambda>g. Key g = k) xs))"
      using True by (rule Cons.IH)
    ultimately show ?thesis by simp
  next
    case False
    then have kx: "k = Key x" using Cons.prems by auto
    have "filter (\<lambda>g. Key g = k) xs = []"
      using False by (auto simp: filter_empty_conv)
    moreover have "addFields m (x # xs) k = Some x"
      using False kx by (simp add: addFields_other)
    ultimately show ?thesis using kx by simp
  qed
qed

lemma keepExisting_keeps:
  "m (Key f) = Some f \<Longrightarrow> f \<in> set xs \<Longrightarrow> f \<in> set (snd (keepExisting m [] xs))"
proof (induction xs arbitrary: m)
  case Nil
  then show ?case by simp
next
  case (Cons x xs)
  show ?case
  proof (cases "m (Key x) = Some x")
    case True
    define m' where "m' = m(Key x := None)"
    have step: "snd (keepExisting m [] (x # xs)) = x # snd (keepExisting m' [] xs)"
      unfolding m'_def by (rule keepExisting_keep(1) [of m x, OF True])
    show ?thesis
    proof (cases "x = f")
      case True
      then show ?thesis unfolding step by simp
    next
      case False
      then have "Key x \<noteq> Key f"
        using True Cons.prems(1) by auto
      then have "m' (Key f) = Some f"
        using Cons.prems(1) by (simp add: m'_def)
      moreover have "f \<in> set xs"
        using False Cons.prems(2) by auto
      ultimately have "f \<in> set (snd (keepExisting m' [] xs))"
        by (rule Cons.IH)
      then show ?thesis unfolding step by simp
    qed
  next
    case False
    then have "x \<noteq> f" using Cons.prems(1) by auto
    then have "f \<in> set xs" using Cons.prems(2) by auto
    then have "f \<in> set (snd (keepExisting m [] xs))"
      using Cons.prems(1) Cons.IH by blast
    then show ?thesis
      by (simp only: keepExisting_skip [of m x, OF False])
  qed
qed

text \<open>
  C9, as stated, fails when \<^verbatim>\<open>incoming\<close> repeats a key: the map then holds the last field
  of \<^verbatim>\<open>incoming\<close> with the key, the third loop compares the existing field with that one,
  and an equal field further to the front of \<^verbatim>\<open>incoming\<close> is emitted by the fourth loop,
  after the new field \<open>c\<close>.
\<close>

theorem MergeFields_equal_field_counterexample:
  "zap_Int ''k'' 1 \<in> set [zap_Int ''k'' 1, zap_Int ''b'' 2] \<and>
   zap_Int ''k'' 1 \<in> set [zap_Int ''c'' 3, zap_Int ''k'' 1, zap_Int ''k'' 2] \<and>
   Equals (zap_Int ''k'' 1) (zap_Int ''k'' 1) \<and>
   distinct (keys [zap_Int ''k'' 1, zap_Int ''b'' 2]) \<and>
   zap_Int ''c'' 3 \<notin> set [zap_Int ''k'' 1, zap_Int ''b'' 2] \<and>
   MergeFields [zap_Int ''k'' 1, zap_Int ''b'' 2]
     [zap_Int ''c'' 3, zap_Int ''k'' 1, zap_Int ''k'' 2] =
     [zap_Int ''b'' 2, zap_Int ''c'' 3, zap_Int ''k'' 1]"
  by (simp add: MergeFields_def mergeLoops_def Equals_def zap_Int_def)

text \<open>
  C9, amended: when the last field of \<^verbatim>\<open>incoming\<close> with the key of a field \<open>f\<close> of \<^verbatim>\<open>existing\<close>
  \<^verbatim>\<open>Equals\<close> \<open>f\<close>, \<^verbatim>\<open>MergeFields\<close> keeps \<open>f\<close> at its existing position: the result is a
  part of \<^verbatim>\<open>existing\<close> in the order of \<^verbatim>\<open>existing\<close> that holds \<open>f\<close>, followed by a part of
  \<^verbatim>\<open>incoming\<close> in the order of \<^verbatim>\<open>incoming\<close> that holds no field with the key of \<open>f\<close>, and the
  result has exactly one field with that key, which is \<open>f\<close>. For a unique-keyed
  \<^verbatim>\<open>existing\<close> the first part consists of the fields whose key does not occur in
  \<^verbatim>\<open>incoming\<close> and of those that the last field of \<^verbatim>\<open>incoming\<close> with their key repeats.
  A unique-keyed \<^verbatim>\<open>incoming\<close> is the case where the one field with the key is the last.
\<close>

theorem MergeFields_equal_field_stays:
  assumes "f \<in> set existing"
    and "filter (\<lambda>g. Key g = Key f) incoming \<noteq> []"
    and "Equals (last (filter (\<lambda>g. Key g = Key f) incoming)) f"
  shows "\<exists>kept added.
           MergeFields existing incoming = kept @ added \<and>
           subseq kept existing \<and> subseq added incoming \<and>
           f \<in> set kept \<and> Key f \<notin> set (keys added) \<and>
           filter (\<lambda>x. Key x = Key f) (MergeFields existing incoming) = [f] \<and>
           (distinct (keys existing) \<longrightarrow>
              kept = filter (\<lambda>e. Key e \<notin> set (keys incoming) \<or>
                                last (filter (\<lambda>g. Key g = Key e) incoming) = e) existing)"
proof -
  define m where "m = addFields (addFields Map.empty existing) incoming"
  define kept where "kept = snd (keepExisting m [] existing)"
  define m1 where "m1 = fst (keepExisting m [] existing)"
  define added where "added = snd (addNew m1 [] incoming)"
  obtain g0 where "g0 \<in> set incoming" "Key g0 = Key f"
    using assms(2) by (auto simp: filter_empty_conv)
  then have kin: "Key f \<in> Key ` set incoming"
    by (metis imageI)
  have ne: "existing \<noteq> []" "incoming \<noteq> []"
    using assms(1,2) by auto
  have eq: "MergeFields existing incoming = kept @ added"
    using ne by (simp add: MergeFields_def mergeLoops_split kept_def added_def m1_def m_def)
  have "m (Key f) = Some (last (filter (\<lambda>g. Key g = Key f) incoming))"
    unfolding m_def using kin by (rule addFields_last)
  then have mf: "m (Key f) = Some f"
    using assms(3) by (simp add: Equals_def)
  have fk: "f \<in> set kept"
    unfolding kept_def using mf assms(1) by (rule keepExisting_keeps)
  have "Key ` set added = dom m1 \<inter> Key ` set incoming"
    unfolding added_def by (rule addNew_keys)
  moreover have "dom m1 = dom m - Key ` set kept"
    unfolding m1_def kept_def by (rule keepExisting_dom)
  moreover have "Key f \<in> Key ` set kept"
    using fk by (rule imageI)
  ultimately have nk: "Key f \<notin> set (keys added)"
    by auto
  have "distinct (keys (kept @ added))"
    using mergeLoops_distinct [of existing incoming]
    by (simp only: mergeLoops_split kept_def added_def m1_def m_def)
  moreover have "f \<in> set (kept @ added)"
    using fk by simp
  ultimately have once: "filter (\<lambda>x. Key x = Key f) (kept @ added) = [f]"
    by (rule filter_key_single)
  have uniq: "kept = filter (\<lambda>e. Key e \<notin> set (keys incoming) \<or>
                  last (filter (\<lambda>g. Key g = Key e) incoming) = e) existing"
    if d: "distinct (keys existing)"
  proof -
    have look: "(m (Key e) = Some e) =
        (Key e \<notin> set (keys incoming) \<or> last (filter (\<lambda>g. Key g = Key e) incoming) = e)"
      if e: "e \<in> set existing" for e
    proof (cases "Key e \<in> Key ` set incoming")
      case True
      have "m (Key e) = Some (last (filter (\<lambda>g. Key g = Key e) incoming))"
        unfolding m_def using True by (rule addFields_last)
      then show ?thesis using True by auto
    next
      case False
      then have "m (Key e) = addFields Map.empty existing (Key e)"
        by (simp add: m_def addFields_other)
      also have "\<dots> = Some e"
        using d e by (rule addFields_member)
      finally show ?thesis using False by simp
    qed
    have "kept = filter (\<lambda>e. m (Key e) = Some e) existing"
      unfolding kept_def using d by (rule keepExisting_unique)
    also have "\<dots> = filter (\<lambda>e. Key e \<notin> set (keys incoming) \<or>
                  last (filter (\<lambda>g. Key g = Key e) incoming) = e) existing"
      by (rule filter_cong) (simp_all add: look)
    finally show ?thesis .
  qed
  show ?thesis
  proof (intro exI conjI impI)
    show "MergeFields existing incoming = kept @ added" by (fact eq)
    show "subseq kept existing" unfolding kept_def by (rule keepExisting_subseq)
    show "subseq added incoming" unfolding added_def by (rule addNew_subseq)
    show "f \<in> set kept" by (fact fk)
    show "Key f \<notin> set (keys added)" by (fact nk)
    show "filter (\<lambda>x. Key x = Key f) (MergeFields existing incoming) = [f]"
      using once by (simp only: eq)
  next
    assume "distinct (keys existing)"
    then show "kept = filter (\<lambda>e. Key e \<notin> set (keys incoming) \<or>
                  last (filter (\<lambda>g. Key g = Key e) incoming) = e) existing"
      by (rule uniq)
  qed
qed

text \<open>
  The amended C9 at an \<^verbatim>\<open>incoming\<close> that repeats the key \<open>a\<close> and ends it with the existing
  field.
\<close>

theorem MergeFields_equal_field_stays_witness:
  "\<exists>kept added.
     MergeFields [zap_Int ''a'' 1, zap_Int ''b'' 2]
       [zap_Int ''c'' 3, zap_Int ''a'' 5, zap_Int ''a'' 1] = kept @ added \<and>
     kept = [zap_Int ''a'' 1, zap_Int ''b'' 2] \<and>
     zap_Int ''a'' 1 \<in> set kept \<and> ''a'' \<notin> set (keys added) \<and>
     filter (\<lambda>x. Key x = ''a'')
       (MergeFields [zap_Int ''a'' 1, zap_Int ''b'' 2]
          [zap_Int ''c'' 3, zap_Int ''a'' 5, zap_Int ''a'' 1]) = [zap_Int ''a'' 1]"
proof -
  define ex where "ex = [zap_Int ''a'' 1, zap_Int ''b'' 2]"
  define inc where "inc = [zap_Int ''c'' 3, zap_Int ''a'' 5, zap_Int ''a'' 1]"
  have a: "zap_Int ''a'' 1 \<in> set ex"
    by (simp add: ex_def)
  have b: "filter (\<lambda>g. Key g = Key (zap_Int ''a'' 1)) inc \<noteq> []"
    by (simp add: inc_def zap_Int_def)
  have c: "Equals (last (filter (\<lambda>g. Key g = Key (zap_Int ''a'' 1)) inc)) (zap_Int ''a'' 1)"
    by (simp add: inc_def zap_Int_def Equals_def)
  have d: "distinct (keys ex)"
    by (simp add: ex_def zap_Int_def)
  have k: "Key (zap_Int ''a'' 1) = ''a''"
    by (simp add: zap_Int_def)
  have flt: "filter (\<lambda>e. Key e \<notin> set (keys inc) \<or>
        last (filter (\<lambda>g. Key g = Key e) inc) = e) ex = [zap_Int ''a'' 1, zap_Int ''b'' 2]"
    by (simp add: ex_def inc_def zap_Int_def)
  obtain kept added where o:
    "MergeFields ex inc = kept @ added" "zap_Int ''a'' 1 \<in> set kept"
    "Key (zap_Int ''a'' 1) \<notin> set (keys added)"
    "filter (\<lambda>x. Key x = Key (zap_Int ''a'' 1)) (MergeFields ex inc) = [zap_Int ''a'' 1]"
    "distinct (keys ex) \<longrightarrow> kept = filter (\<lambda>e. Key e \<notin> set (keys inc) \<or>
        last (filter (\<lambda>g. Key g = Key e) inc) = e) ex"
    using MergeFields_equal_field_stays [OF a b c] by blast
  have "kept = filter (\<lambda>e. Key e \<notin> set (keys inc) \<or>
        last (filter (\<lambda>g. Key g = Key e) inc) = e) ex"
    using o(5) d by (rule mp)
  then have kk: "kept = [zap_Int ''a'' 1, zap_Int ''b'' 2]"
    by (simp only: flt)
  have o3: "''a'' \<notin> set (keys added)"
    using o(3) by (simp add: k)
  have o4: "filter (\<lambda>x. Key x = ''a'') (MergeFields ex inc) = [zap_Int ''a'' 1]"
    using o(4) by (simp add: k)
  show ?thesis
    using o(1) kk o(2) o3 o4 unfolding ex_def inc_def by blast
qed

section \<open>Claims about the context functions\<close>

lemma alloc_frame:
  "free h \<le> free (fst (alloc h xs)) \<and> (\<forall>a < free h. cells (fst (alloc h xs)) a = cells h a)"
  by (simp add: alloc_def)

lemma ctx_ok_frame:
  assumes "ctx_ok h ctx" and "free h \<le> free h'"
  shows "ctx_ok h' ctx"
  using assms by (auto simp: ctx_ok_def slice_ok_def split: option.split ctxVal.split)

lemma callWithFields_Some:
  assumes ok: "ctx_ok h (Some c)"
  shows "\<exists>h' c'. callWithFields h (Some c) fs = Inr (h', Some c') \<and>
           fieldsOf h' (Some c') = MergeFields (fieldsOf h (Some c)) fs \<and>
           ctx_ok h' (Some c')"
proof (cases "fs = []")
  case True
  have "callWithFields h (Some c) fs = Inr (h, Some c)"
    using True by (simp add: callWithFields_def WithFields_def elems_def)
  then show ?thesis
    using ok True by (simp add: MergeFields_Nil_right)
next
  case False
  define h0 where "h0 = fst (alloc h fs)"
  define F where "F = snd (alloc h fs)"
  have call: "callWithFields h (Some c) fs = WithFields h0 (Some c) F"
    using False by (simp add: callWithFields_def split_beta h0_def F_def)
  obtain h' c' where w: "WithFields h0 (Some c) F = Inr (h', Some c')"
    using WithFields_returns by blast
  have okF: "slice_ok h0 F"
    unfolding h0_def F_def by (rule slice_ok_alloc_new)
  have ok0: "ctx_ok h0 (Some c)"
    using ok alloc_frame [of h fs] by (auto simp: h0_def intro: ctx_ok_frame)
  have "fieldsOf h0 (Some c) = fieldsOf h (Some c)"
    using ok alloc_frame [of h fs] by (auto simp: h0_def intro: fieldsOf_frame)
  moreover have "elems h0 F = fs"
    by (simp add: h0_def F_def)
  moreover have "fieldsOf h' (Some c') = MergeFields (fieldsOf h0 (Some c)) (elems h0 F)"
    using okF w by (rule WithFields_fieldsOf)
  moreover have "ctx_ok h' (Some c')"
    using okF ok0 w by (rule WithFields_ctx_ok)
  ultimately show ?thesis
    using call w by simp
qed

text \<open>
  C3, as the spec states it, fails: with an empty \<^verbatim>\<open>existing\<close> the early return hands back
  an \<^verbatim>\<open>incoming\<close> that repeats a key as it is, and \<^verbatim>\<open>WithFields\<close> on a handle without
  fields stores such a slice unchanged.
\<close>

theorem WithFields_duplicate_keys_counterexample:
  "MergeFields [] [zap_Int ''k'' 1, zap_Int ''k'' 2] = [zap_Int ''k'' 1, zap_Int ''k'' 2] \<and>
   \<not> distinct (keys (MergeFields [] [zap_Int ''k'' 1, zap_Int ''k'' 2])) \<and>
   (case callWithFields emptyHeap (Some Background) [zap_Int ''k'' 1, zap_Int ''k'' 2] of
      Inl p \<Rightarrow> False
    | Inr (h, c) \<Rightarrow> fieldsOf h c = [zap_Int ''k'' 1, zap_Int ''k'' 2] \<and>
                     \<not> distinct (keys (fieldsOf h c)))"
  by (simp add: MergeFields_def callWithFields_def WithFields_def FieldsFromContext_def
      context_WithValue_def fieldsOf_def alloc_def elems_def emptyHeap_def zap_Int_def)

text \<open>
  C3, amended: for a unique-keyed \<^verbatim>\<open>existing\<close>, and an \<^verbatim>\<open>incoming\<close> that is unique-keyed
  unless \<^verbatim>\<open>existing\<close> is non-empty, the result of \<^verbatim>\<open>MergeFields\<close> has no two fields with
  the same key. Consequently \<^verbatim>\<open>WithFields\<close> on a handle whose fields are unique-keyed
  returns a handle whose fields are unique-keyed, when the fields given are unique-keyed
  or the handle already has fields.
\<close>

theorem WithFields_unique_keys:
  "(distinct (keys existing) \<longrightarrow> distinct (keys incoming) \<or> existing \<noteq> [] \<longrightarrow>
      distinct (keys (MergeFields existing incoming))) \<and>
   (slice_ok h fields' \<longrightarrow> distinct (keys (fieldsOf h (Some c))) \<longrightarrow>
    distinct (keys (elems h fields')) \<or> fieldsOf h (Some c) \<noteq> [] \<longrightarrow>
      (\<exists>h' c'. WithFields h (Some c) fields' = Inr (h', c') \<and>
               distinct (keys (fieldsOf h' c'))))"
proof (intro conjI impI)
  assume "distinct (keys existing)" "distinct (keys incoming) \<or> existing \<noteq> []"
  then show "distinct (keys (MergeFields existing incoming))"
    by (rule MergeFields_distinct)
next
  assume ok: "slice_ok h fields'" and d: "distinct (keys (fieldsOf h (Some c)))"
    and e: "distinct (keys (elems h fields')) \<or> fieldsOf h (Some c) \<noteq> []"
  obtain h' c' where w: "WithFields h (Some c) fields' = Inr (h', Some c')"
    using WithFields_returns by blast
  have "fieldsOf h' (Some c') = MergeFields (fieldsOf h (Some c)) (elems h fields')"
    using ok w by (rule WithFields_fieldsOf)
  then have "distinct (keys (fieldsOf h' (Some c')))"
    using MergeFields_distinct [OF d e] by simp
  then show "\<exists>h' c'. WithFields h (Some c) fields' = Inr (h', c') \<and> distinct (keys (fieldsOf h' c'))"
    using w by blast
qed

text \<open>The amended C3 where \<^verbatim>\<open>incoming\<close> repeats a key and \<^verbatim>\<open>existing\<close> is not empty.\<close>

theorem WithFields_unique_keys_witness:
  "distinct (keys (MergeFields [zap_Int ''a'' 1, zap_Int ''b'' 2] [zap_Int ''b'' 20, zap_Int ''b'' 21])) \<and>
   (\<exists>h' c'. WithFields (fst (alloc emptyHeap [zap_Int ''a'' 1, zap_Int ''b'' 2])) (Some Background)
        (Some 0) = Inr (h', c') \<and> distinct (keys (fieldsOf h' c')))"
  using WithFields_unique_keys
    [of "[zap_Int ''a'' 1, zap_Int ''b'' 2]" "[zap_Int ''b'' 20, zap_Int ''b'' 21]"
        "fst (alloc emptyHeap [zap_Int ''a'' 1, zap_Int ''b'' 2])" "Some 0" Background]
  by (simp add: slice_ok_def alloc_def emptyHeap_def elems_def fieldsOf_Some zap_Int_def)

text \<open>
  C4: for unique-keyed \<^verbatim>\<open>existing\<close> and \<^verbatim>\<open>incoming\<close> and a field \<open>g\<close> of \<^verbatim>\<open>incoming\<close> whose
  key also occurs in \<^verbatim>\<open>existing\<close>, the result of \<^verbatim>\<open>MergeFields\<close> holds exactly one field
  with that key, and it is \<open>g\<close>. In particular, on a handle that shows no fields,
  \<^verbatim>\<open>WithFields(ctx, old)\<close> followed by \<^verbatim>\<open>WithFields(ctx, new)\<close> with the same key returns a
  handle whose fields are the single field \<open>new\<close>.
\<close>

theorem WithFields_override:
  "(distinct (keys existing) \<longrightarrow> distinct (keys incoming) \<longrightarrow>
    g \<in> set incoming \<longrightarrow> Key g \<in> set (keys existing) \<longrightarrow>
      filter (\<lambda>f. Key f = Key g) (MergeFields existing incoming) = [g]) \<and>
   (ctx_ok h (Some c) \<longrightarrow> fieldsOf h (Some c) = [] \<longrightarrow> Key new = Key old \<longrightarrow>
      (\<exists>h1 c1 h2 c2.
         callWithFields h (Some c) [old] = Inr (h1, c1) \<and>
         callWithFields h1 c1 [new] = Inr (h2, c2) \<and>
         fieldsOf h2 c2 = [new]))"
proof (intro conjI impI)
  assume ex: "distinct (keys existing)" and new: "distinct (keys incoming)"
    and g: "g \<in> set incoming" and k: "Key g \<in> set (keys existing)"
  have "Key g \<in> set (keys (MergeFields existing incoming))"
  proof (cases "existing = [] \<or> incoming = []")
    case True
    then show ?thesis using g k by (auto simp: MergeFields_def)
  next
    case False
    then show ?thesis
      using mergeLoops_keys [of incoming existing] g by (auto simp: MergeFields_def)
  qed
  then obtain f where f: "f \<in> set (MergeFields existing incoming)" "Key f = Key g"
    by auto
  have kin: "Key f \<in> Key ` set incoming"
    using f(2) g by (metis imageI)
  have "f \<in> set (filter (\<lambda>f. Key f \<notin> Key ` set incoming \<or> f \<in> set incoming) existing) \<or>
        f \<in> set (filter (\<lambda>g. g \<notin> set existing) incoming)"
    using f(1) MergeFields_unique [OF ex new] by auto
  then have "f \<in> set incoming"
    using kin by auto
  then have "f = g"
    using keys_inj [OF new, of f g] g f(2) by simp
  moreover have "filter (\<lambda>x. Key x = Key f) (MergeFields existing incoming) = [f]"
    using ex new f(1) by (intro filter_key_single MergeFields_distinct) auto
  ultimately show "filter (\<lambda>f. Key f = Key g) (MergeFields existing incoming) = [g]"
    by simp
next
  assume ok: "ctx_ok h (Some c)" and e: "fieldsOf h (Some c) = []" and k: "Key new = Key old"
  obtain h1 c1 where 1: "callWithFields h (Some c) [old] = Inr (h1, Some c1)"
    "fieldsOf h1 (Some c1) = MergeFields (fieldsOf h (Some c)) [old]" "ctx_ok h1 (Some c1)"
    using callWithFields_Some [OF ok, of "[old]"] by blast
  obtain h2 c2 where 2: "callWithFields h1 (Some c1) [new] = Inr (h2, Some c2)"
    "fieldsOf h2 (Some c2) = MergeFields (fieldsOf h1 (Some c1)) [new]"
    using callWithFields_Some [OF 1(3), of "[new]"] by blast
  have "fieldsOf h1 (Some c1) = [old]"
    using 1(2) e by (simp add: MergeFields_Nil_left)
  then have "fieldsOf h2 (Some c2) = MergeFields [old] [new]"
    using 2(2) by simp
  also have "\<dots> = [new]"
    using k MergeFields_unique [of "[old]" "[new]"] by auto
  finally show "\<exists>h1 c1 h2 c2.
         callWithFields h (Some c) [old] = Inr (h1, c1) \<and>
         callWithFields h1 c1 [new] = Inr (h2, c2) \<and>
         fieldsOf h2 c2 = [new]"
    using 1(1) 2(1) by blast
qed

text \<open>C4 at the spec's examples.\<close>

theorem WithFields_override_witness:
  "filter (\<lambda>f. Key f = ''b'')
     (MergeFields [zap_Int ''a'' 1, zap_Int ''b'' 2] [zap_Int ''b'' 20, zap_Int ''c'' 3]) =
     [zap_Int ''b'' 20] \<and>
   (\<exists>h1 c1 h2 c2.
      callWithFields emptyHeap (Some Background) [zap_String ''k'' ''old''] = Inr (h1, c1) \<and>
      callWithFields h1 c1 [zap_String ''k'' ''new''] = Inr (h2, c2) \<and>
      fieldsOf h2 c2 = [zap_String ''k'' ''new''])"
  using WithFields_override
    [of "[zap_Int ''a'' 1, zap_Int ''b'' 2]" "[zap_Int ''b'' 20, zap_Int ''c'' 3]"
        "zap_Int ''b'' 20" emptyHeap Background "zap_String ''k'' ''new''" "zap_String ''k'' ''old''"]
  by (simp add: ctx_ok_def fieldsOf_Some zap_Int_def zap_String_def)

text \<open>
  C5: \<^verbatim>\<open>WithFields\<close> with no fields (a nil or an empty slice) returns the very handle it
  was given, nil included, and leaves the store as it is: no array is allocated and no
  value is attached, so the fields of the handle are what they were.
\<close>

theorem WithFields_no_fields:
  "(length (elems h fields') = 0 \<longrightarrow> WithFields h ctx fields' = Inr (h, ctx)) \<and>
   callWithFields h ctx [] = Inr (h, ctx)"
  by (simp add: callWithFields_def WithFields_def elems_def)

text \<open>C5 at an empty non-nil slice and at a nil handle.\<close>

theorem WithFields_no_fields_witness:
  "WithFields (fst (alloc emptyHeap [])) (Some (valueCtx Background (otherKey 7) (OtherVal 1)))
     (Some 0) =
     Inr (fst (alloc emptyHeap []), Some (valueCtx Background (otherKey 7) (OtherVal 1))) \<and>
   WithFields emptyHeap None None = Inr (emptyHeap, None)"
  using
    WithFields_no_fields [of "fst (alloc emptyHeap [])" "Some 0"
      "Some (valueCtx Background (otherKey 7) (OtherVal 1))" ]
    WithFields_no_fields [of emptyHeap None None]
  by (simp add: alloc_def elems_def emptyHeap_def)

text \<open>
  C8: \<^verbatim>\<open>WithFields\<close> is not defined for all inputs. With a nil handle and at least one
  field it reaches \<^verbatim>\<open>context.WithValue\<close> with a nil parent, which panics, whereas
  \<^verbatim>\<open>FieldsFromContext\<close> guards the nil handle and returns nil.
\<close>

theorem WithFields_nil_context_panics:
  "callWithFields emptyHeap None [zap_String ''k'' ''v''] = Inl NilParent \<and>
   FieldsFromContext emptyHeap None = (emptyHeap, None)"
  by (simp add: callWithFields_def WithFields_def FieldsFromContext_def context_WithValue_def
      alloc_def elems_def emptyHeap_def zap_String_def)

lemma FieldsFromContext_total:
  "FieldsFromContext h None = (h, None) \<and>
   (Value c fieldsKey = None \<longrightarrow> FieldsFromContext h (Some c) = (h, None))"
  by (simp add: FieldsFromContext_def)

section \<open>Independence of handles and copies\<close>

lemma slice_ok_frame:
  assumes "slice_ok h s" and "free h \<le> free h'"
  shows "slice_ok h' s"
  using assms by (auto simp: slice_ok_def split: option.split)

lemma WithFields_carried:
  assumes w: "WithFields h (Some c) F = Inr (h', Some c')"
    and v: "Value c' fieldsKey = Some (FieldsVal s)"
  shows "s = F \<or> Value c fieldsKey = Some (FieldsVal s) \<or> (\<exists>x. s = Some x \<and> free h \<le> x)"
proof (cases "elems h F = []")
  case True
  then have "c' = c" using w by (simp add: WithFields_def)
  then show ?thesis using v by simp
next
  case F: False
  define h1 where "h1 = fst (FieldsFromContext h (Some c))"
  define ex where "ex = snd (FieldsFromContext h (Some c))"
  have fr1: "free h \<le> free h1"
    using FieldsFromContext_frame [of h "Some c"] by (simp add: h1_def)
  show ?thesis
  proof (cases "elems h1 ex = []")
    case True
    then have "c' = valueCtx c fieldsKey (FieldsVal F)"
      using w F by (auto simp: WithFields_def split_beta h1_def ex_def context_WithValue_def)
    then show ?thesis using v by simp
  next
    case False
    define mf where "mf = snd (MergeFields_slices h1 ex F)"
    have c': "c' = valueCtx c fieldsKey (FieldsVal mf)"
      using w F False
      by (auto simp: WithFields_def split_beta h1_def ex_def mf_def context_WithValue_def)
    show ?thesis
    proof (cases "elems h1 F = []")
      case True
      have "ex = None \<or> ex = Some (free h)"
        by (auto simp: ex_def FieldsFromContext_def alloc_def split: option.split ctxVal.split)
      moreover have "mf = ex"
        using True False by (simp add: mf_def MergeFields_slices_def)
      ultimately show ?thesis
        using v c' False by (auto simp: elems_def)
    next
      case False
      then have "mf = Some (free h1)"
        using \<open>elems h1 ex \<noteq> []\<close> by (simp add: mf_def MergeFields_slices_def alloc_def)
      then show ?thesis
        using v c' fr1 by auto
    qed
  qed
qed

lemma fieldsOf_mutate:
  assumes "\<And>s. Value c fieldsKey = Some (FieldsVal s) \<Longrightarrow> s \<noteq> Some a"
  shows "fieldsOf (mutate h a xs) (Some c) = fieldsOf h (Some c)"
proof (cases "Value c fieldsKey")
  case None
  then show ?thesis by (simp add: fieldsOf_Some)
next
  case (Some v)
  show ?thesis
  proof (cases v)
    case (FieldsVal s)
    then have "s \<noteq> Some a" using assms Some by simp
    then show ?thesis
      using Some FieldsVal by (auto simp: fieldsOf_Some elems_def mutate_def split: option.split)
  next
    case (OtherVal n)
    then show ?thesis using Some by (simp add: fieldsOf_Some)
  qed
qed

text \<open>
  C6: let \<open>h0\<close> be a non-nil handle and \<open>F1\<close>, \<open>F2\<close> slices of the program (empty or not).
  \<^verbatim>\<open>WithFields(h0, F1)\<close> returns a handle \<open>h1\<close> and \<^verbatim>\<open>WithFields(h0, F2)\<close> after it a handle
  \<open>h2\<close>. Neither call changes the fields that \<open>h0\<close> shows. The fields of \<open>h1\<close> are the merge
  of the fields of \<open>h0\<close> with \<open>F1\<close>, so every key of \<open>h1\<close> is a key of \<open>h0\<close> or of \<open>F1\<close> and
  none occurs only in \<open>F2\<close>; likewise for \<open>h2\<close> and \<open>F2\<close>. Creating \<open>h2\<close> leaves the fields of
  \<open>h1\<close> as they were, and any later \<^verbatim>\<open>WithFields\<close> on \<open>h1\<close> or on \<open>h2\<close> leaves the fields of
  the other handle and of \<open>h0\<close> unchanged.
\<close>

theorem WithFields_independent:
  assumes "ctx_ok h (Some c)" and "slice_ok h F1" and "slice_ok h F2"
  shows "\<exists>h1 c1 h2 c2.
    WithFields h (Some c) F1 = Inr (h1, c1) \<and>
    WithFields h1 (Some c) F2 = Inr (h2, c2) \<and>
    fieldsOf h1 (Some c) = fieldsOf h (Some c) \<and>
    fieldsOf h2 (Some c) = fieldsOf h (Some c) \<and>
    fieldsOf h2 c1 = fieldsOf h1 c1 \<and>
    fieldsOf h2 c1 = MergeFields (fieldsOf h (Some c)) (elems h F1) \<and>
    fieldsOf h2 c2 = MergeFields (fieldsOf h (Some c)) (elems h F2) \<and>
    set (keys (fieldsOf h2 c1)) \<subseteq> set (keys (fieldsOf h (Some c))) \<union> set (keys (elems h F1)) \<and>
    set (keys (fieldsOf h2 c2)) \<subseteq> set (keys (fieldsOf h (Some c))) \<union> set (keys (elems h F2)) \<and>
    (\<forall>F3 h3 c3. WithFields h2 c1 F3 = Inr (h3, c3) \<longrightarrow>
       fieldsOf h3 c2 = fieldsOf h2 c2 \<and> fieldsOf h3 (Some c) = fieldsOf h (Some c)) \<and>
    (\<forall>F3 h3 c3. WithFields h2 c2 F3 = Inr (h3, c3) \<longrightarrow>
       fieldsOf h3 c1 = fieldsOf h2 c1 \<and> fieldsOf h3 (Some c) = fieldsOf h (Some c))"
proof -
  obtain h1 c1 where w1: "WithFields h (Some c) F1 = Inr (h1, Some c1)"
    using WithFields_returns by blast
  have fr1: "free h \<le> free h1 \<and> (\<forall>a < free h. cells h1 a = cells h a)"
    using w1 by (rule WithFields_frame)
  have ok1: "ctx_ok h1 (Some c1)"
    using assms(2,1) w1 by (rule WithFields_ctx_ok)
  have f1: "fieldsOf h1 (Some c1) = MergeFields (fieldsOf h (Some c)) (elems h F1)"
    using assms(2) w1 by (rule WithFields_fieldsOf)
  have c_h1: "fieldsOf h1 (Some c) = fieldsOf h (Some c)"
    using assms(1) fr1 by (intro fieldsOf_frame) simp_all
  have okc1: "ctx_ok h1 (Some c)"
    using fr1 by (intro ctx_ok_frame [OF assms(1)]) simp
  have okF2: "slice_ok h1 F2"
    using fr1 by (intro slice_ok_frame [OF assms(3)]) simp
  have eF2: "elems h1 F2 = elems h F2"
    using assms(3) fr1 by (intro elems_frame) simp_all
  obtain h2 c2 where w2: "WithFields h1 (Some c) F2 = Inr (h2, Some c2)"
    using WithFields_returns by blast
  have fr2: "free h1 \<le> free h2 \<and> (\<forall>a < free h1. cells h2 a = cells h1 a)"
    using w2 by (rule WithFields_frame)
  have ok2: "ctx_ok h2 (Some c2)"
    using okF2 okc1 w2 by (rule WithFields_ctx_ok)
  have f2: "fieldsOf h2 (Some c2) = MergeFields (fieldsOf h (Some c)) (elems h F2)"
    using WithFields_fieldsOf [OF okF2 w2] by (simp add: c_h1 eF2)
  have c1_h2: "fieldsOf h2 (Some c1) = fieldsOf h1 (Some c1)"
    using ok1 fr2 by (intro fieldsOf_frame) simp_all
  have c_h2: "fieldsOf h2 (Some c) = fieldsOf h (Some c)"
    using okc1 fr2 fieldsOf_frame [of h1 "Some c" h2] by (simp add: c_h1)
  have ok1': "ctx_ok h2 (Some c1)"
    using fr2 by (intro ctx_ok_frame [OF ok1]) simp
  have okc2: "ctx_ok h2 (Some c)"
    using fr2 by (intro ctx_ok_frame [OF okc1]) simp
  have k1: "set (keys (fieldsOf h2 (Some c1))) \<subseteq>
      set (keys (fieldsOf h (Some c))) \<union> set (keys (elems h F1))"
    using MergeFields_set [of "fieldsOf h (Some c)" "elems h F1"] by (auto simp: c1_h2 f1)
  have k2: "set (keys (fieldsOf h2 (Some c2))) \<subseteq>
      set (keys (fieldsOf h (Some c))) \<union> set (keys (elems h F2))"
    using MergeFields_set [of "fieldsOf h (Some c)" "elems h F2"] by (auto simp: f2)
  have later: "fieldsOf h3 d = fieldsOf h2 d"
    if "WithFields h2 e F3 = Inr (h3, c3)" "ctx_ok h2 d" for e F3 h3 c3 d
  proof -
    have "free h2 \<le> free h3 \<and> (\<forall>a < free h2. cells h3 a = cells h2 a)"
      using that(1) by (rule WithFields_frame)
    then show ?thesis
      using that(2) by (intro fieldsOf_frame) simp_all
  qed
  have f1': "fieldsOf h2 (Some c1) = MergeFields (fieldsOf h (Some c)) (elems h F1)"
    using c1_h2 f1 by simp
  show ?thesis
  proof (intro exI conjI allI impI)
    show "WithFields h (Some c) F1 = Inr (h1, Some c1)" by (fact w1)
    show "WithFields h1 (Some c) F2 = Inr (h2, Some c2)" by (fact w2)
    show "fieldsOf h1 (Some c) = fieldsOf h (Some c)" by (fact c_h1)
    show "fieldsOf h2 (Some c) = fieldsOf h (Some c)" by (fact c_h2)
    show "fieldsOf h2 (Some c1) = fieldsOf h1 (Some c1)" by (fact c1_h2)
    show "fieldsOf h2 (Some c1) = MergeFields (fieldsOf h (Some c)) (elems h F1)" by (fact f1')
    show "fieldsOf h2 (Some c2) = MergeFields (fieldsOf h (Some c)) (elems h F2)" by (fact f2)
    show "set (keys (fieldsOf h2 (Some c1))) \<subseteq>
      set (keys (fieldsOf h (Some c))) \<union> set (keys (elems h F1))" by (fact k1)
    show "set (keys (fieldsOf h2 (Some c2))) \<subseteq>
      set (keys (fieldsOf h (Some c))) \<union> set (keys (elems h F2))" by (fact k2)
  next
    fix F3 h3 c3
    assume w: "WithFields h2 (Some c1) F3 = Inr (h3, c3)"
    show "fieldsOf h3 (Some c2) = fieldsOf h2 (Some c2)"
      using w ok2 by (rule later)
    show "fieldsOf h3 (Some c) = fieldsOf h (Some c)"
      using later [OF w okc2] c_h2 by simp
  next
    fix F3 h3 c3
    assume w: "WithFields h2 (Some c2) F3 = Inr (h3, c3)"
    show "fieldsOf h3 (Some c1) = fieldsOf h2 (Some c1)"
      using w ok1' by (rule later)
    show "fieldsOf h3 (Some c) = fieldsOf h (Some c)"
      using later [OF w okc2] c_h2 by simp
  qed
qed

text \<open>C6 at the spec's independence example: \<open>x\<close> and \<open>y\<close> attached to a fresh handle.\<close>

theorem WithFields_independent_witness:
  "\<exists>h1 c1 h2 c2.
     WithFields (fst (alloc (fst (alloc emptyHeap [zap_Int ''x'' 1])) [zap_Int ''y'' 2]))
       (Some Background) (Some 0) = Inr (h1, c1) \<and>
     WithFields h1 (Some Background) (Some 1) = Inr (h2, c2) \<and>
     fieldsOf h2 (Some Background) = [] \<and>
     fieldsOf h2 c1 = [zap_Int ''x'' 1] \<and>
     fieldsOf h2 c2 = [zap_Int ''y'' 2]"
proof -
  define H where "H = fst (alloc (fst (alloc emptyHeap [zap_Int ''x'' 1])) [zap_Int ''y'' 2])"
  have a: "ctx_ok H (Some Background)"
    by (simp add: ctx_ok_def)
  have b: "slice_ok H (Some 0)" and c: "slice_ok H (Some 1)"
    by (simp_all add: H_def slice_ok_def alloc_def emptyHeap_def)
  have e: "fieldsOf H (Some Background) = []" "elems H (Some 0) = [zap_Int ''x'' 1]"
    "elems H (Some (Suc 0)) = [zap_Int ''y'' 2]"
    by (simp_all add: H_def fieldsOf_Some elems_def alloc_def emptyHeap_def)
  obtain h1 c1 h2 c2 where
    "WithFields H (Some Background) (Some 0) = Inr (h1, c1)"
    "WithFields h1 (Some Background) (Some 1) = Inr (h2, c2)"
    "fieldsOf h2 (Some Background) = fieldsOf H (Some Background)"
    "fieldsOf h2 c1 = MergeFields (fieldsOf H (Some Background)) (elems H (Some 0))"
    "fieldsOf h2 c2 = MergeFields (fieldsOf H (Some Background)) (elems H (Some 1))"
    using WithFields_independent [OF a b c] by blast
  then show ?thesis
    unfolding H_def [symmetric] by (simp add: e MergeFields_Nil_left)
qed

text \<open>
  C7: for a handle that carries a field collection, \<^verbatim>\<open>FieldsFromContext\<close> returns a slice
  on a new array: its address was not allocated before the call and differs from the
  stored slice, and it holds the stored fields. Whatever is written to that array
  afterwards, the handle shows its original fields, and so does every handle that
  existed at the call, every handle derived from it by \<^verbatim>\<open>WithFields\<close> after the write,
  and every handle derived from it by \<^verbatim>\<open>WithFields\<close> before the write.
\<close>

theorem FieldsFromContext_defensive_copy:
  assumes "ctx_ok h (Some c)" and "Value c fieldsKey = Some (FieldsVal s)"
  shows "\<exists>h1 a.
    FieldsFromContext h (Some c) = (h1, Some a) \<and>
    \<not> slice_ok h (Some a) \<and> Some a \<noteq> s \<and>
    elems h1 (Some a) = elems h s \<and> fieldsOf h (Some c) = elems h s \<and>
    (\<forall>xs.
       fieldsOf (mutate h1 a xs) (Some c) = fieldsOf h (Some c) \<and>
       (\<forall>d. ctx_ok h d \<longrightarrow> fieldsOf (mutate h1 a xs) d = fieldsOf h d) \<and>
       (\<forall>F h2 d. slice_ok h F \<longrightarrow> WithFields (mutate h1 a xs) (Some c) F = Inr (h2, d) \<longrightarrow>
          fieldsOf h2 d = MergeFields (fieldsOf h (Some c)) (elems h F)) \<and>
       (\<forall>F h2 d. slice_ok h F \<longrightarrow> WithFields h1 (Some c) F = Inr (h2, d) \<longrightarrow>
          fieldsOf (mutate h2 a xs) d = fieldsOf h2 d \<and>
          fieldsOf h2 d = MergeFields (fieldsOf h (Some c)) (elems h F)))"
proof -
  define a where "a = free h"
  define h1 where "h1 = fst (alloc h (elems h s))"
  have ffc: "FieldsFromContext h (Some c) = (h1, Some a)"
    by (simp add: FieldsFromContext_def assms(2) h1_def a_def alloc_def)
  have fresh: "\<not> slice_ok h (Some a)"
    by (simp add: slice_ok_def a_def)
  have oks: "slice_ok h s"
    using assms by (simp add: ctx_ok_def)
  have ne: "Some a \<noteq> s"
    using oks fresh by auto
  have copy: "elems h1 (Some a) = elems h s"
    by (simp add: h1_def a_def alloc_def elems_def)
  have fo: "fieldsOf h (Some c) = elems h s"
    by (simp add: fieldsOf_Some assms(2))
  have free1: "free h1 = Suc a"
    by (simp add: h1_def a_def alloc_def)
  have fr1: "free h \<le> free h1 \<and> (\<forall>x < free h. cells h1 x = cells h x)"
    unfolding h1_def by (rule alloc_frame)
  have frm: "free h \<le> free (mutate h1 a xs) \<and> (\<forall>x < free h. cells (mutate h1 a xs) x = cells h x)"
    for xs
    using fr1 by (simp add: mutate_def a_def)
  have B: "fieldsOf (mutate h1 a xs) d = fieldsOf h d" if "ctx_ok h d" for xs d
    using that frm [of xs] by (intro fieldsOf_frame) simp_all
  have C: "fieldsOf h2 d = MergeFields (fieldsOf h (Some c)) (elems h F)"
    if F: "slice_ok h F" and w: "WithFields hm (Some c) F = Inr (h2, d)"
      and hm: "free h \<le> free hm \<and> (\<forall>x < free h. cells hm x = cells h x)" for hm F h2 d
  proof -
    have "slice_ok hm F"
      using hm by (intro slice_ok_frame [OF F]) simp
    then have "fieldsOf h2 d = MergeFields (fieldsOf hm (Some c)) (elems hm F)"
      using w by (rule WithFields_fieldsOf)
    moreover have "fieldsOf hm (Some c) = fieldsOf h (Some c)"
      using assms(1) hm by (intro fieldsOf_frame) simp_all
    moreover have "elems hm F = elems h F"
      using F hm by (intro elems_frame) simp_all
    ultimately show ?thesis by simp
  qed
  have D: "fieldsOf (mutate h2 a xs) d = fieldsOf h2 d"
    if F: "slice_ok h F" and w: "WithFields h1 (Some c) F = Inr (h2, d)" for F h2 d xs
  proof -
    obtain c' where d: "d = Some c'"
      using w WithFields_returns [of h1 c F] by auto
    have "s' \<noteq> Some a" if v: "Value c' fieldsKey = Some (FieldsVal s')" for s'
    proof -
      have "s' = F \<or> Value c fieldsKey = Some (FieldsVal s') \<or> (\<exists>x. s' = Some x \<and> free h1 \<le> x)"
        using w v unfolding d by (rule WithFields_carried)
      then show ?thesis
        using F fresh ne assms(2) free1 by auto
    qed
    then show ?thesis
      unfolding d by (rule fieldsOf_mutate)
  qed
  show ?thesis
  proof (intro exI conjI allI impI)
    show "FieldsFromContext h (Some c) = (h1, Some a)" by (fact ffc)
    show "\<not> slice_ok h (Some a)" by (fact fresh)
    show "Some a \<noteq> s" by (fact ne)
    show "elems h1 (Some a) = elems h s" by (fact copy)
    show "fieldsOf h (Some c) = elems h s" by (fact fo)
  next
    fix xs
    show "fieldsOf (mutate h1 a xs) (Some c) = fieldsOf h (Some c)"
      using assms(1) by (rule B)
  next
    fix xs d
    assume "ctx_ok h d"
    then show "fieldsOf (mutate h1 a xs) d = fieldsOf h d" by (rule B)
  next
    fix xs F h2 d
    assume "slice_ok h F" and "WithFields (mutate h1 a xs) (Some c) F = Inr (h2, d)"
    then show "fieldsOf h2 d = MergeFields (fieldsOf h (Some c)) (elems h F)"
      using frm [of xs] by (rule C)
  next
    fix xs F h2 d
    assume F: "slice_ok h F" and w: "WithFields h1 (Some c) F = Inr (h2, d)"
    show "fieldsOf (mutate h2 a xs) d = fieldsOf h2 d"
      using F w by (rule D)
    show "fieldsOf h2 d = MergeFields (fieldsOf h (Some c)) (elems h F)"
      using F w fr1 by (rule C)
  qed
qed

text \<open>C7 at a handle with one field: the copy is overwritten, the handle is not.\<close>

theorem FieldsFromContext_defensive_copy_witness:
  "\<exists>h1 a.
     FieldsFromContext (fst (alloc emptyHeap [zap_String ''k'' ''v'']))
       (Some (valueCtx Background fieldsKey (FieldsVal (Some 0)))) = (h1, Some a) \<and>
     elems h1 (Some a) = [zap_String ''k'' ''v''] \<and>
     fieldsOf (mutate h1 a [zap_String ''k'' ''changed''])
       (Some (valueCtx Background fieldsKey (FieldsVal (Some 0)))) = [zap_String ''k'' ''v'']"
proof -
  define H where "H = fst (alloc emptyHeap [zap_String ''k'' ''v''])"
  define C where "C = valueCtx Background fieldsKey (FieldsVal (Some 0))"
  have a: "ctx_ok H (Some C)"
    by (simp add: ctx_ok_def C_def slice_ok_def H_def alloc_def emptyHeap_def)
  have b: "Value C fieldsKey = Some (FieldsVal (Some 0))"
    by (simp add: C_def)
  have e: "elems H (Some 0) = [zap_String ''k'' ''v'']"
    by (simp add: H_def elems_def alloc_def emptyHeap_def)
  obtain h1 x where
    "FieldsFromContext H (Some C) = (h1, Some x)"
    "elems h1 (Some x) = elems H (Some 0)"
    "fieldsOf H (Some C) = elems H (Some 0)"
    "\<forall>xs. fieldsOf (mutate h1 x xs) (Some C) = fieldsOf H (Some C)"
    using FieldsFromContext_defensive_copy [OF a b] by blast
  then show ?thesis
    unfolding H_def [symmetric] C_def [symmetric] by (auto simp: e)
qed

end
